theory Spec2Isabelle
  imports Main
begin

section \<open>JavaScript string helpers\<close>

text \<open>
  Strings are byte lists; the TypeScript sources only inspect ASCII punctuation
  (\<open>:\<close>, \<open>.\<close>, \<open>[\<close>, \<open>{\<close>, \<open>-\<close>), so a code unit is modelled by a \<open>char\<close>.
  Numbers are modelled by \<open>int\<close>; a result that JavaScript would report as \<open>NaN\<close> is
  \<open>None\<close>.
\<close>

definition digit_char :: "nat \<Rightarrow> char" where
  "digit_char d = ''0123456789'' ! d"

fun show_nat :: "nat \<Rightarrow> string" where
  "show_nat n = (if n < 10 then [digit_char n] else show_nat (n div 10) @ [digit_char (n mod 10)])"

declare show_nat.simps [simp del]

definition show_int :: "int \<Rightarrow> string" where
  "show_int i = (if i < 0 then CHR ''-'' # show_nat (nat (- i)) else show_nat (nat i))"

text \<open>\<open>s.padStart(n, c)\<close> for a one-character pad string.\<close>

definition padStart :: "nat \<Rightarrow> char \<Rightarrow> string \<Rightarrow> string" where
  "padStart n c s = replicate (n - length s) c @ s"

text \<open>\<open>s.split(c)\<close> for a one-character separator: never returns the empty array.\<close>

fun split_on :: "char \<Rightarrow> string \<Rightarrow> string list" where
  "split_on c [] = [[]]"
| "split_on c (x # xs) =
     (if x = c then [] # split_on c xs
      else (case split_on c xs of [] \<Rightarrow> [[x]] | p # ps \<Rightarrow> (x # p) # ps))"

definition is_space :: "char \<Rightarrow> bool" where
  "is_space c = (c = CHR '' '' \<or> c = CHR 0x09 \<or> c = CHR 0x0A \<or> c = CHR 0x0B
                 \<or> c = CHR 0x0C \<or> c = CHR 0x0D)"

definition trim :: "string \<Rightarrow> string" where
  "trim s = rev (dropWhile is_space (rev (dropWhile is_space s)))"

definition is_digit :: "char \<Rightarrow> bool" where
  "is_digit c = (48 \<le> (of_char c :: nat) \<and> (of_char c :: nat) \<le> 57)"

definition digit_val :: "char \<Rightarrow> int" where
  "digit_val c = int (of_char c) - 48"

definition digits_val :: "string \<Rightarrow> int" where
  "digits_val ds = foldl (\<lambda>acc c. 10 * acc + digit_val c) 0 ds"

text \<open>
  \<open>Number(s)\<close> on a string, for the forms an \<open>HH:MM\<close> component can take: surrounding
  white space is dropped, the empty string is \<open>0\<close>, an optionally signed run of decimal
  digits is its value. Every other string is reported as \<open>NaN\<close>; the fractional,
  exponent, hexadecimal and \<open>Infinity\<close> forms of JavaScript are outside the model.
\<close>

definition Number :: "string \<Rightarrow> int option" where
  "Number s =
     (let t = trim s in
      if t = [] then Some 0
      else if hd t = CHR ''-'' \<and> tl t \<noteq> [] \<and> list_all is_digit (tl t) then Some (- digits_val (tl t))
      else if hd t = CHR ''+'' \<and> tl t \<noteq> [] \<and> list_all is_digit (tl t) then Some (digits_val (tl t))
      else if list_all is_digit t then Some (digits_val t)
      else None)"

text \<open>The \<open><\<close> of JavaScript on two strings: lexicographic on code units.\<close>

fun str_less :: "string \<Rightarrow> string \<Rightarrow> bool" where
  "str_less [] [] = False"
| "str_less [] (y # ys) = True"
| "str_less (x # xs) [] = False"
| "str_less (x # xs) (y # ys) =
     (if (of_char x :: nat) < of_char y then True
      else if (of_char y :: nat) < of_char x then False
      else str_less xs ys)"

text \<open>Truthiness of an optional string field: \<open>undefined\<close> and \<open>""\<close> are falsy.\<close>

fun truthy_str :: "string option \<Rightarrow> bool" where
  "truthy_str None = False"
| "truthy_str (Some s) = (s \<noteq> [])"

section \<open>Schedule window: \<open>AgentScheduler\<close> (src/execution/scheduler.service.ts)\<close>

record AgentSchedule =
  startTime :: "string option"
  endTime :: "string option"
  timezone :: "string option"
  daysOfWeek :: "int list option"

text \<open>
  A \<open>Date\<close> is its epoch value in milliseconds. The local fields of a \<open>Date\<close> are read
  in a host time zone without offset or daylight saving (UTC). The source builds
  \<open>localTime = new Date(now.toLocaleString('en-US', {timeZone}))\<close>; the conversion to the
  configured zone is done by the platform, so \<open>localTime\<close> is an input of the model next
  to \<open>now\<close>.
\<close>

definition msPerDay :: int where "msPerDay = 86400000"

definition getDay :: "int \<Rightarrow> int" where
  "getDay t = (4 + t div msPerDay) mod 7"

definition getHours :: "int \<Rightarrow> int" where
  "getHours t = (t mod msPerDay) div 3600000"

definition getMinutes :: "int \<Rightarrow> int" where
  "getMinutes t = (t mod 3600000) div 60000"

definition getTimeString :: "int \<Rightarrow> string" where
  "getTimeString date =
     padStart 2 (CHR ''0'') (show_int (getHours date)) @ '':'' @
     padStart 2 (CHR ''0'') (show_int (getMinutes date))"

text \<open>\<open>d.setHours(h, m, 0, 0)\<close>: same local day, the given time of day.\<close>

definition setHours :: "int \<Rightarrow> int \<Rightarrow> int \<Rightarrow> int" where
  "setHours d h m = d - d mod msPerDay + h * 3600000 + m * 60000"

definition isWithinSchedule :: "AgentSchedule \<Rightarrow> int \<Rightarrow> bool" where
  "isWithinSchedule schedule localTime =
     (if \<not> truthy_str (startTime schedule) \<and> \<not> truthy_str (endTime schedule)
         \<and> daysOfWeek schedule = None then True
      else if (case daysOfWeek schedule of
                 None \<Rightarrow> False
               | Some ds \<Rightarrow> ds \<noteq> [] \<and> getDay localTime \<notin> set ds) then False
      else if truthy_str (startTime schedule) \<or> truthy_str (endTime schedule) then
        (let currentTime = getTimeString localTime in
         if truthy_str (startTime schedule) \<and> str_less currentTime (the (startTime schedule))
           then False
         else if truthy_str (endTime schedule) \<and> str_less (the (endTime schedule)) currentTime
           then False
         else True)
      else True)"

text \<open>
  \<open>getWaitTimeMs\<close>. \<open>None\<close> is the \<open>NaN\<close> that results when a component of
  \<open>startTime\<close> is not a number. \<open>parts[0] ?? 0\<close> and \<open>parts[1] ?? 0\<close> default only a
  missing component.
\<close>

definition getWaitTimeMs :: "AgentSchedule \<Rightarrow> int \<Rightarrow> int \<Rightarrow> int option" where
  "getWaitTimeMs schedule now localTime =
     (if isWithinSchedule schedule localTime then Some 0
      else if truthy_str (startTime schedule) then
        (let parts = map Number (split_on (CHR '':'') (the (startTime schedule)));
             hours = (case parts of [] \<Rightarrow> Some 0 | h # _ \<Rightarrow> h);
             minutes = (case parts of _ # m # _ \<Rightarrow> m | _ \<Rightarrow> Some 0)
         in case (hours, minutes) of
              (Some h, Some m) \<Rightarrow>
                (let startDate = setHours localTime h m;
                     startDate' = (if startDate < localTime then startDate + msPerDay
                                   else startDate)
                 in Some (startDate' - now))
            | _ \<Rightarrow> None)
      else Some 0)"

section \<open>Tick limits: \<open>TickManager\<close> (src/execution/scheduler.service.ts)\<close>

record AgentTickConfig =
  enabled :: bool
  intervalMs :: "int option"
  intervalSeconds :: "int option"
  intervalMinutes :: "int option"
  maxTicksPerRound :: "int option"

record TickManager =
  tickCounts :: "string \<rightharpoonup> int"
  lastTickTimes :: "string \<rightharpoonup> int"

text \<open>\<open>map.get(k) || 0\<close> and \<open>x || d\<close> on numbers: \<open>undefined\<close> and \<open>0\<close> are falsy.\<close>

definition get_or_0 :: "(string \<rightharpoonup> int) \<Rightarrow> string \<Rightarrow> int" where
  "get_or_0 m k = (case m k of None \<Rightarrow> 0 | Some v \<Rightarrow> v)"

fun num_or :: "int option \<Rightarrow> int \<Rightarrow> int" where
  "num_or None d = d"
| "num_or (Some v) d = (if v = 0 then d else v)"

fun truthy_num :: "int option \<Rightarrow> bool" where
  "truthy_num None = False"
| "truthy_num (Some v) = (v \<noteq> 0)"

definition shouldExecute :: "TickManager \<Rightarrow> int \<Rightarrow> string \<Rightarrow> AgentTickConfig \<Rightarrow> bool" where
  "shouldExecute tm now agentId tickConfig =
     (if \<not> enabled tickConfig then True
      else
        (let lastTick = get_or_0 (lastTickTimes tm) agentId;
             interval = num_or (intervalMs tickConfig) 1000
         in if now - lastTick < interval then False
            else if truthy_num (maxTicksPerRound tickConfig)
                    \<and> the (maxTicksPerRound tickConfig) \<le> get_or_0 (tickCounts tm) agentId
              then False
            else True))"

text \<open>
  The condition of the specification, word for word: the configuration is enabled and
  either less than \<open>intervalMs\<close> has elapsed since the actor's last tick, or
  \<open>maxTicksPerRound\<close> is configured and the actor's count has reached it. The interval
  and the maximum are taken as the configuration gives them; no number is less than an
  absent interval.
\<close>

definition blocked_as_specified :: "TickManager \<Rightarrow> int \<Rightarrow> string \<Rightarrow> AgentTickConfig \<Rightarrow> bool" where
  "blocked_as_specified tm now agentId tickConfig =
     (enabled tickConfig \<and>
        ((case intervalMs tickConfig of
            None \<Rightarrow> False
          | Some i \<Rightarrow> now - get_or_0 (lastTickTimes tm) agentId < i)
         \<or> (case maxTicksPerRound tickConfig of
               None \<Rightarrow> False
             | Some m \<Rightarrow> m \<le> get_or_0 (tickCounts tm) agentId)))"

definition recordTick :: "TickManager \<Rightarrow> int \<Rightarrow> string \<Rightarrow> TickManager" where
  "recordTick tm now agentId =
     tm\<lparr> lastTickTimes := (lastTickTimes tm)(agentId \<mapsto> now),
         tickCounts := (tickCounts tm)(agentId \<mapsto> get_or_0 (tickCounts tm) agentId + 1) \<rparr>"

definition resetRound :: "TickManager \<Rightarrow> string \<Rightarrow> TickManager" where
  "resetRound tm agentId = tm\<lparr> tickCounts := (tickCounts tm)(agentId \<mapsto> 0) \<rparr>"

definition getTickCount :: "TickManager \<Rightarrow> string \<Rightarrow> int" where
  "getTickCount tm agentId = get_or_0 (tickCounts tm) agentId"

section \<open>Template resolver: \<open>TemplateResolver\<close> (docs/CHALLENGES.md)\<close>

subsection \<open>Context values\<close>

text \<open>
  The context of a template is a tree of plain data. Property reads cover own data
  properties, array and string indices and \<open>length\<close>; methods inherited from the
  prototypes are outside the model. A \<open>Date\<close> object is kept by the text that \<open>String\<close>
  gives it; it has no own data properties.
\<close>

datatype jsval =
    JUndefined
  | JNull
  | JBool bool
  | JNum int
  | JStr string
  | JArr "jsval list"
  | JObj "(string \<times> jsval) list"
  | JDate string

definition is_nullish :: "jsval \<Rightarrow> bool" where
  "is_nullish v = (v = JUndefined \<or> v = JNull)"

text \<open>A canonical array index: a decimal numeral without a leading zero.\<close>

definition array_index :: "string \<Rightarrow> nat option" where
  "array_index k =
     (if k \<noteq> [] \<and> list_all is_digit k \<and> (k = ''0'' \<or> hd k \<noteq> CHR ''0'')
      then Some (nat (digits_val k)) else None)"

text \<open>\<open>v[k]\<close> for a value \<open>v\<close> that is neither \<open>null\<close> nor \<open>undefined\<close>.\<close>

fun getProp :: "jsval \<Rightarrow> string \<Rightarrow> jsval" where
  "getProp (JObj kvs) k = (case map_of kvs k of None \<Rightarrow> JUndefined | Some v \<Rightarrow> v)"
| "getProp (JArr xs) k =
     (if k = ''length'' then JNum (int (length xs))
      else (case array_index k of
              None \<Rightarrow> JUndefined
            | Some i \<Rightarrow> if i < length xs then xs ! i else JUndefined))"
| "getProp (JStr s) k =
     (if k = ''length'' then JNum (int (length s))
      else (case array_index k of
              None \<Rightarrow> JUndefined
            | Some i \<Rightarrow> if i < length s then JStr [s ! i] else JUndefined))"
| "getProp v k = JUndefined"

text \<open>The property key of a number used as an index: \<open>NaN\<close> reads the key \<open>"NaN"\<close>.\<close>

fun key_of_num :: "int option \<Rightarrow> string" where
  "key_of_num None = ''NaN''"
| "key_of_num (Some i) = show_int i"

definition is_hex :: "char \<Rightarrow> bool" where
  "is_hex c = (is_digit c \<or> c \<in> set ''abcdefABCDEF'')"

definition hex_val :: "char \<Rightarrow> int" where
  "hex_val c =
     (if is_digit c then digit_val c
      else if c \<in> set ''abcdef'' then int (of_char c) - 87
      else int (of_char c) - 55)"

definition parse_digits :: "string \<Rightarrow> int option" where
  "parse_digits u =
     (if take 2 u = ''0x'' \<or> take 2 u = ''0X'' then
        (let ds = takeWhile is_hex (drop 2 u) in
         if ds = [] then None else Some (foldl (\<lambda>acc c. 16 * acc + hex_val c) 0 ds))
      else
        (let ds = takeWhile is_digit u in
         if ds = [] then None else Some (digits_val ds)))"

text \<open>
  \<open>parseInt(s)\<close> without radix: leading white space, an optional sign, then the longest
  run of digits (hexadecimal after \<open>0x\<close>); \<open>NaN\<close> when there is no digit.
\<close>

definition parseInt :: "string \<Rightarrow> int option" where
  "parseInt s =
     (let t = dropWhile is_space s in
      case t of
        [] \<Rightarrow> None
      | c # cs \<Rightarrow>
          if c = CHR ''-'' then map_option uminus (parse_digits cs)
          else if c = CHR ''+'' then parse_digits cs
          else parse_digits t)"

text \<open>\<open>xs.join(sep)\<close> on strings.\<close>

fun join :: "string \<Rightarrow> string list \<Rightarrow> string" where
  "join sep [] = []"
| "join sep [x] = x"
| "join sep (x # y # ys) = x @ sep @ join sep (y # ys)"

text \<open>
  \<open>String(v)\<close>. A number is an integer and prints in decimal, as \<open>String\<close> prints
  the integers below \<open>1e21\<close>; the exponent notation of larger numbers is outside the
  model.
\<close>

fun to_String :: "jsval \<Rightarrow> string" where
  "to_String JUndefined = ''undefined''"
| "to_String JNull = ''null''"
| "to_String (JBool b) = (if b then ''true'' else ''false'')"
| "to_String (JNum i) = show_int i"
| "to_String (JStr s) = s"
| "to_String (JArr xs) =
     join '','' (map (\<lambda>x. if x = JUndefined \<or> x = JNull then [] else to_String x) xs)"
| "to_String (JObj kvs) = ''[object Object]''"
| "to_String (JDate s) = s"

subsection \<open>Matching and replacing\<close>

text \<open>
  One attempt of the regular expression \<open>\{\{([^}]+)\}\}\<close> at the head of a string:
  two opening braces, the longest non-empty run without a closing brace, two closing
  braces. The result is the captured run and the rest of the input after the match.
\<close>

definition match_at :: "string \<Rightarrow> (string \<times> string) option" where
  "match_at s =
     (if take 2 s = ''{{'' then
        (let body = takeWhile (\<lambda>c. c \<noteq> CHR ''}'') (drop 2 s);
             after = dropWhile (\<lambda>c. c \<noteq> CHR ''}'') (drop 2 s)
         in if body \<noteq> [] \<and> take 2 after = ''}}'' then Some (body, drop 2 after) else None)
      else None)"

text \<open>\<open>template.match(/\{\{([^}]+)\}\}/g)\<close>: all matches, left to right, not overlapping.\<close>

function find_markers :: "string \<Rightarrow> string list" where
  "find_markers [] = []"
| "find_markers (c # cs) =
     (case match_at (c # cs) of
        Some p \<Rightarrow> (''{{'' @ fst p @ ''}}'') # find_markers (snd p)
      | None \<Rightarrow> find_markers cs)"
  by pat_completeness auto
termination
proof (relation "measure length")
  show "wf (measure length)" by simp
next
  fix c :: char and cs :: string
  assume "match_at (c # cs) = None"
  show "(cs, c # cs) \<in> measure length" by simp
next
  fix c :: char and cs :: string and p :: "string \<times> string"
  assume a: "match_at (c # cs) = Some p"
  have l: "length (dropWhile (\<lambda>c. c \<noteq> CHR ''}'') (drop 2 (c # cs))) \<le> length (drop 2 (c # cs))"
    by (rule length_dropWhile_le)
  from a have "snd p = drop 2 (dropWhile (\<lambda>c. c \<noteq> CHR ''}'') (drop 2 (c # cs)))"
    by (auto simp: match_at_def Let_def split: if_splits)
  with l show "(snd p, c # cs) \<in> measure length" by simp
qed

text \<open>\<open>m.slice(2, -2)\<close>.\<close>

definition slice_2_m2 :: "string \<Rightarrow> string" where
  "slice_2_m2 m = take (length m - 4) (drop 2 m)"

text \<open>The first occurrence of a pattern: the text before it and the text after it.\<close>

fun find_sub :: "string \<Rightarrow> string \<Rightarrow> (string \<times> string) option" where
  "find_sub pat [] = (if pat = [] then Some ([], []) else None)"
| "find_sub pat (c # cs) =
     (if take (length pat) (c # cs) = pat then Some ([], drop (length pat) (c # cs))
      else map_option (\<lambda>r. (c # fst r, snd r)) (find_sub pat cs))"

text \<open>
  The replacement text of \<open>String.prototype.replace\<close> with a string pattern:
  \<open>$$\<close>, \<open>$&\<close>, \<open>$`\<close> and \<open>$'\<close> are expanded; there are no captures, so every other
  \<open>$\<close> stays.
\<close>

fun expand_repl :: "string \<Rightarrow> string \<Rightarrow> string \<Rightarrow> string \<Rightarrow> string" where
  "expand_repl m pre post [] = []"
| "expand_repl m pre post [c] = [c]"
| "expand_repl m pre post (c # d # r) =
     (if c = CHR ''$'' \<and> d = CHR ''$'' then CHR ''$'' # expand_repl m pre post r
      else if c = CHR ''$'' \<and> d = CHR ''&'' then m @ expand_repl m pre post r
      else if c = CHR ''$'' \<and> d = CHR 0x60 then pre @ expand_repl m pre post r
      else if c = CHR ''$'' \<and> d = CHR 0x27 then post @ expand_repl m pre post r
      else c # expand_repl m pre post (d # r))"

definition str_replace :: "string \<Rightarrow> string \<Rightarrow> string \<Rightarrow> string" where
  "str_replace s pat repl =
     (case find_sub pat s of
        None \<Rightarrow> s
      | Some r \<Rightarrow> fst r @ expand_repl pat (fst r) (snd r) repl @ snd r)"

subsection \<open>\<open>getNestedValue\<close> and \<open>resolve\<close>\<close>

fun getNestedValue_loop :: "jsval \<Rightarrow> string list \<Rightarrow> jsval" where
  "getNestedValue_loop current [] = current"
| "getNestedValue_loop current (part # parts) =
     (if is_nullish current then JUndefined
      else if CHR ''['' \<in> set part then
        (let ps = split_on (CHR ''['') part;
             key = ps ! 0;
             index = ps ! 1;
             idx = parseInt (remove1 (CHR '']'') index);
             inner = getProp current key
         in getNestedValue_loop
              (if is_nullish inner then JUndefined else getProp inner (key_of_num idx)) parts)
      else getNestedValue_loop (getProp current part) parts)"

definition getNestedValue :: "jsval \<Rightarrow> string \<Rightarrow> jsval" where
  "getNestedValue obj path = getNestedValue_loop obj (split_on (CHR ''.'') path)"

datatype error = Error string | TypeError string | WorkflowValidationError string

fun resolve_loop :: "jsval \<Rightarrow> string \<Rightarrow> string list \<Rightarrow> error + string" where
  "resolve_loop context resolved [] = Inr resolved"
| "resolve_loop context resolved (m # ms) =
     (let path = trim (slice_2_m2 m);
          v = getNestedValue context path
      in if v = JUndefined then Inl (Error (''Template variable not found: '' @ path))
         else resolve_loop context (str_replace resolved m (to_String v)) ms)"

definition resolve :: "string \<Rightarrow> jsval \<Rightarrow> error + string" where
  "resolve template context =
     (let matches = find_markers template in
      if matches = [] then Inr template
      else resolve_loop context template matches)"

subsection \<open>\<open>ExecutionEngine.resolveTemplateString\<close> (command-line engine)\<close>

datatype result_status = result_completed | result_failed | result_pending

record NodeResult =
  result_id :: string
  result_status :: result_status
  result_output :: jsval
  result_error :: "string option"
  result_duration :: "int option"

fun is_truthy :: "jsval \<Rightarrow> bool" where
  "is_truthy JUndefined = False"
| "is_truthy JNull = False"
| "is_truthy (JBool b) = b"
| "is_truthy (JNum i) = (i \<noteq> 0)"
| "is_truthy (JStr s) = (s \<noteq> [])"
| "is_truthy v = True"

text \<open>\<open>parts[1]\<close>: \<open>undefined\<close> when the path has a single segment.\<close>

definition second_part :: "string list \<Rightarrow> string option" where
  "second_part parts = (case parts of _ # p # _ \<Rightarrow> Some p | _ \<Rightarrow> None)"

text \<open>
  \<open>JSON.stringify\<close> is a parameter of the model. A key that is \<open>undefined\<close> is looked
  up as the property name \<open>"undefined"\<close>.
\<close>

fun resolveTemplateString_loop ::
  "(jsval \<Rightarrow> string) \<Rightarrow> (string \<times> jsval) list \<Rightarrow> NodeResult list \<Rightarrow> string \<Rightarrow> string list \<Rightarrow> string"
where
  "resolveTemplateString_loop stringify workflowInputs previousResults resolvedValue [] =
     resolvedValue"
| "resolveTemplateString_loop stringify workflowInputs previousResults resolvedValue (m # ms) =
     (let path = trim (slice_2_m2 m);
          parts = split_on (CHR ''.'') path;
          resolvedValue' =
            (if parts ! 0 = ''inputs'' then
               (let inputKey = (case second_part parts of None \<Rightarrow> ''undefined'' | Some k \<Rightarrow> k) in
                case map_of workflowInputs inputKey of
                  Some v \<Rightarrow> str_replace resolvedValue m (to_String v)
                | None \<Rightarrow> resolvedValue)
             else
               (let nodeId = parts ! 0;
                    outputKey = second_part parts
                in case find (\<lambda>r. result_id r = nodeId) previousResults of
                     None \<Rightarrow> resolvedValue
                   | Some nodeResult \<Rightarrow>
                       if is_truthy (result_output nodeResult) then
                         (let outputValue =
                                (if truthy_str outputKey
                                 then getProp (result_output nodeResult) (the outputKey)
                                 else result_output nodeResult);
                              valueStr = (case outputValue of JStr s \<Rightarrow> s
                                          | _ \<Rightarrow> stringify outputValue)
                          in str_replace resolvedValue m valueStr)
                       else resolvedValue))
      in resolveTemplateString_loop stringify workflowInputs previousResults resolvedValue' ms)"

definition resolveTemplateString ::
  "(jsval \<Rightarrow> string) \<Rightarrow> string \<Rightarrow> (string \<times> jsval) list \<Rightarrow> NodeResult list \<Rightarrow> string"
where
  "resolveTemplateString stringify template workflowInputs previousResults =
     (let matches = find_markers template in
      if matches = [] then template
      else resolveTemplateString_loop stringify workflowInputs previousResults template matches)"

text \<open>
  A template contains a marker when some part of it reads \<open>{{body}}\<close> with a non-empty
  body free of closing braces.
\<close>

definition has_marker :: "string \<Rightarrow> bool" where
  "has_marker t =
     (\<exists>pre body post. t = pre @ ''{{'' @ body @ ''}}'' @ post \<and> body \<noteq> [] \<and> CHR ''}'' \<notin> set body)"

section \<open>Workflow validation\<close>

subsection \<open>Command-line parser: \<open>WorkflowYAMLParser.validate\<close> (agentic-cli)\<close>

text \<open>
  The parsed YAML document is untyped in the source (\<open>parsed: any\<close>). A scalar field
  (name, version, id, ref, from, to) is a string when present; it is \<open>None\<close> when
  absent and falsy when absent or empty. A collection field is a falsy value (absent,
  \<open>null\<close>, \<open>false\<close>, \<open>0\<close> or the empty string), a truthy value that is not an array, or
  an array. An element of an array is \<open>None\<close> when it is \<open>null\<close>, where reading a
  property throws a \<open>TypeError\<close>; any other element is read through its properties, a
  property that it does not have being \<open>None\<close>.
\<close>

datatype 'a field = Falsy | NotArray | Array "'a option list"

record RawNode =
  node_id :: "string option"
  node_ref :: "string option"

record RawEdge =
  edge_from :: "string option"
  edge_to :: "string option"

record ParsedDoc =
  doc_name :: "string option"
  doc_version :: "string option"
  doc_nodes :: "RawNode field"
  doc_edges :: "RawEdge field"

datatype error_type = SyntaxErr | ValidationErr | SemanticErr

record ValidationError =
  err_type :: error_type
  err_message :: string
  err_line :: "nat option"
  err_path :: "string option"

definition verr :: "string \<Rightarrow> string option \<Rightarrow> ValidationError" where
  "verr msg p = \<lparr> err_type = ValidationErr, err_message = msg, err_line = None, err_path = p \<rparr>"

text \<open>The error of reading property \<open>prop\<close> of \<open>null\<close>.\<close>

definition null_read :: "string \<Rightarrow> error" where
  "null_read prop = TypeError (''Cannot read properties of null (reading '' @ [CHR 0x27] @ prop
                               @ [CHR 0x27] @ '')'')"

text \<open>
  The callback of the \<open>forEach\<close> over the nodes, for an element that is not \<open>null\<close>: the
  entries it pushes at the running index, given the set \<open>nodeIds\<close> of the ids seen so
  far, and the set it leaves.
\<close>

definition node_errors :: "nat \<Rightarrow> string set \<Rightarrow> RawNode \<Rightarrow> ValidationError list" where
  "node_errors index nodeIds node =
     (if \<not> truthy_str (node_id node) then
        [verr (''Node at index '' @ show_nat index @ '' missing id'')
              (Some (''nodes['' @ show_nat index @ '']''))]
      else if the (node_id node) \<in> nodeIds then
        [verr (''Duplicate node ID: '' @ the (node_id node))
              (Some (''nodes['' @ show_nat index @ ''].id''))]
      else [])
     @ (if \<not> truthy_str (node_ref node) then
          [verr (''Node '' @ (if truthy_str (node_id node) then the (node_id node)
                              else show_nat index)
                   @ '' missing ref (agent reference)'')
                (Some (''nodes['' @ show_nat index @ '']''))]
        else [])"

definition add_id :: "string set \<Rightarrow> RawNode \<Rightarrow> string set" where
  "add_id nodeIds node =
     (if truthy_str (node_id node) then insert (the (node_id node)) nodeIds else nodeIds)"

text \<open>
  The \<open>forEach\<close> over the nodes. A \<open>null\<close> element throws on \<open>node.id\<close>, and the
  entries pushed so far are lost with the call.
\<close>

fun validate_nodes :: "nat \<Rightarrow> string set \<Rightarrow> RawNode option list
                       \<Rightarrow> error + ValidationError list" where
  "validate_nodes index nodeIds [] = Inr []"
| "validate_nodes index nodeIds (None # rest) = Inl (null_read ''id'')"
| "validate_nodes index nodeIds (Some node # rest) =
     (case validate_nodes (Suc index) (add_id nodeIds node) rest of
        Inl e \<Rightarrow> Inl e
      | Inr later \<Rightarrow> Inr (node_errors index nodeIds node @ later))"

text \<open>
  The callback of the \<open>forEach\<close> over the edges, for an element that is not \<open>null\<close>;
  \<open>nodeIds\<close> holds the \<open>id\<close> property of every node, and \<open>output\<close>.
\<close>

definition edge_errors :: "nat \<Rightarrow> string option set \<Rightarrow> RawEdge \<Rightarrow> ValidationError list" where
  "edge_errors index nodeIds edge =
     (if \<not> truthy_str (edge_from edge) then
        [verr (''Edge at index '' @ show_nat index @ '' missing 'from' field'')
              (Some (''edges['' @ show_nat index @ '']''))]
      else [])
     @ (if \<not> truthy_str (edge_to edge) then
          [verr (''Edge at index '' @ show_nat index @ '' missing 'to' field'')
                (Some (''edges['' @ show_nat index @ '']''))]
        else [])
     @ (if truthy_str (edge_from edge) \<and> edge_from edge \<notin> nodeIds then
          [verr (''Edge references non-existent node: '' @ the (edge_from edge))
                (Some (''edges['' @ show_nat index @ ''].from''))]
        else [])
     @ (if truthy_str (edge_to edge) \<and> edge_to edge \<notin> nodeIds then
          [verr (''Edge references non-existent node: '' @ the (edge_to edge))
                (Some (''edges['' @ show_nat index @ ''].to''))]
        else [])"

fun validate_edges :: "nat \<Rightarrow> string option set \<Rightarrow> RawEdge option list
                       \<Rightarrow> error + ValidationError list" where
  "validate_edges index nodeIds [] = Inr []"
| "validate_edges index nodeIds (None # rest) = Inl (null_read ''from'')"
| "validate_edges index nodeIds (Some edge # rest) =
     (case validate_edges (Suc index) nodeIds rest of
        Inl e \<Rightarrow> Inl e
      | Inr later \<Rightarrow> Inr (edge_errors index nodeIds edge @ later))"

text \<open>\<open>xs.map(x => f x)\<close> where \<open>f\<close> reads property \<open>prop\<close> of its argument first.\<close>

fun map_reading :: "string \<Rightarrow> ('a \<Rightarrow> 'b) \<Rightarrow> 'a option list \<Rightarrow> error + 'b list" where
  "map_reading prop f [] = Inr []"
| "map_reading prop f (None # rest) = Inl (null_read prop)"
| "map_reading prop f (Some x # rest) =
     (case map_reading prop f rest of Inl e \<Rightarrow> Inl e | Inr ys \<Rightarrow> Inr (f x # ys))"

text \<open>
  \<open>validate\<close>. The three top-level checks push their entries; the loop over the nodes
  runs when \<open>nodes\<close> is an array; the loop over the edges runs when \<open>edges\<close> is an
  array, after \<open>(parsed.nodes || []).map(n => n.id)\<close>, which is not a function when
  \<open>nodes\<close> is a truthy value that is not an array.
\<close>

definition validate :: "ParsedDoc \<Rightarrow> error + ValidationError list" where
  "validate parsed =
     (let errors1 = (if \<not> truthy_str (doc_name parsed)
                     then [verr ''Workflow name is required'' None] else []);
          errors2 = (if \<not> truthy_str (doc_version parsed)
                     then [verr ''Workflow version is required'' None] else []);
          errors3 = (case doc_nodes parsed of
                       Array ns \<Rightarrow> []
                     | _ \<Rightarrow> [verr ''Workflow must have nodes array'' None])
      in case (case doc_nodes parsed of
                 Array ns \<Rightarrow> validate_nodes 0 {} ns
               | _ \<Rightarrow> Inr []) of
           Inl e \<Rightarrow> Inl e
         | Inr errors4 \<Rightarrow>
             (case doc_edges parsed of
                Array es \<Rightarrow>
                  (case (case doc_nodes parsed of
                           NotArray \<Rightarrow>
                             Inl (TypeError ''(parsed.nodes || []).map is not a function'')
                         | Falsy \<Rightarrow> Inr []
                         | Array ns \<Rightarrow> map_reading ''id'' node_id ns) of
                     Inl e \<Rightarrow> Inl e
                   | Inr ids \<Rightarrow>
                       (case validate_edges 0 (insert (Some ''output'') (set ids)) es of
                          Inl e \<Rightarrow> Inl e
                        | Inr errors5 \<Rightarrow>
                            Inr (errors1 @ errors2 @ errors3 @ errors4 @ errors5)))
              | _ \<Rightarrow> Inr (errors1 @ errors2 @ errors3 @ errors4)))"

text \<open>
  \<open>parse\<close>, from the validation on. Of the resulting workflow only the graph is kept;
  the descriptive fields are copied through by the source. \<open>toWorkflowDefinition\<close>
  throws on a \<open>nodes\<close> or \<open>edges\<close> value that is truthy but not an array, and on a
  \<open>null\<close> element. Whatever is thrown is caught by \<open>parse\<close> and reported as one syntax
  error.
\<close>

record WorkflowDefinition =
  wf_name :: "string option"
  wf_version :: "string option"
  wf_nodes :: "RawNode list"
  wf_edges :: "RawEdge list"

record ParseResult =
  valid :: bool
  workflow :: "WorkflowDefinition option"
  errors :: "ValidationError list option"

definition toWorkflowDefinition :: "ParsedDoc \<Rightarrow> error + WorkflowDefinition" where
  "toWorkflowDefinition parsed =
     (case (case doc_nodes parsed of
              NotArray \<Rightarrow> Inl (TypeError ''(parsed.nodes || []).map is not a function'')
            | Falsy \<Rightarrow> Inr []
            | Array ns \<Rightarrow> map_reading ''id'' (\<lambda>node. node) ns) of
        Inl e \<Rightarrow> Inl e
      | Inr nodes \<Rightarrow>
          (case (case doc_edges parsed of
                   NotArray \<Rightarrow> Inl (TypeError ''(parsed.edges || []).map is not a function'')
                 | Falsy \<Rightarrow> Inr []
                 | Array es \<Rightarrow> map_reading ''from'' (\<lambda>edge. edge) es) of
             Inl e \<Rightarrow> Inl e
           | Inr edges \<Rightarrow>
               Inr \<lparr> wf_name = doc_name parsed, wf_version = doc_version parsed,
                     wf_nodes = nodes, wf_edges = edges \<rparr>))"

fun error_message :: "error \<Rightarrow> string" where
  "error_message (Error m) = m"
| "error_message (TypeError m) = m"
| "error_message (WorkflowValidationError m) = m"

definition caught :: "error \<Rightarrow> ParseResult" where
  "caught e = \<lparr> valid = False, workflow = None,
                errors = Some [\<lparr> err_type = SyntaxErr, err_message = error_message e,
                                 err_line = None, err_path = None \<rparr>] \<rparr>"

definition parse_doc :: "ParsedDoc \<Rightarrow> ParseResult" where
  "parse_doc parsed =
     (case validate parsed of
        Inl e \<Rightarrow> caught e
      | Inr validationErrors \<Rightarrow>
          if validationErrors \<noteq> [] then
            \<lparr> valid = False, workflow = None, errors = Some validationErrors \<rparr>
          else
            (case toWorkflowDefinition parsed of
               Inl e \<Rightarrow> caught e
             | Inr wdef \<Rightarrow> \<lparr> valid = True, workflow = Some wdef, errors = None \<rparr>))"

text \<open>
  The defects of a document, in the words of the validator's messages. The ids that a
  document declares are the \<open>id\<close> properties of the elements of its \<open>nodes\<close> array; an
  endpoint is known when it is one of them or the reserved target \<open>output\<close>.
\<close>

definition declared_ids :: "ParsedDoc \<Rightarrow> string option set" where
  "declared_ids parsed =
     (case doc_nodes parsed of
        Array ns \<Rightarrow> set (concat (map (\<lambda>n. case n of None \<Rightarrow> [] | Some node \<Rightarrow> [node_id node]) ns))
      | _ \<Rightarrow> {})"

definition known_endpoint :: "ParsedDoc \<Rightarrow> string option \<Rightarrow> bool" where
  "known_endpoint parsed x = (x = Some ''output'' \<or> x \<in> declared_ids parsed)"

text \<open>The ids of the nodes before position \<open>i\<close> that have one.\<close>

definition earlier_ids :: "RawNode option list \<Rightarrow> nat \<Rightarrow> string option set" where
  "earlier_ids ns i =
     set (concat (map (\<lambda>n. case n of None \<Rightarrow> [] | Some node \<Rightarrow> [node_id node]) (take i ns)))"

text \<open>
  The calls that throw: a \<open>null\<close> element among the nodes; or an \<open>edges\<close> array next to
  a \<open>nodes\<close> value that is truthy but not an array, or with a \<open>null\<close> element.
\<close>

definition has_null :: "'a field \<Rightarrow> bool" where
  "has_null f = (case f of Array xs \<Rightarrow> None \<in> set xs | _ \<Rightarrow> False)"

definition is_array :: "'a field \<Rightarrow> bool" where
  "is_array f = (case f of Array xs \<Rightarrow> True | _ \<Rightarrow> False)"

definition validate_throws :: "ParsedDoc \<Rightarrow> bool" where
  "validate_throws parsed =
     (has_null (doc_nodes parsed)
      \<or> (is_array (doc_edges parsed)
          \<and> (doc_nodes parsed = NotArray \<or> has_null (doc_edges parsed))))"

subsection \<open>Engine parser: \<open>WorkflowYAMLParser.validateYAML\<close> (src/workflow)\<close>

record YAMLEdge =
  yfrom :: string
  yto :: string

datatype yaml_nodes =
    NoNodes
  | NodeArray "string list"
  | NodeObject "string list"

text \<open>
  Of a node only its id matters to \<open>validateYAML\<close>: the array format lists the ids in
  order, the object format has them as its keys (each bound to a node object).
\<close>

record WorkflowYAMLSpec =
  yaml_name :: "string option"
  yaml_chain :: "string option"
  yaml_token :: "string option"
  yaml_maxBudget :: "string option"
  yaml_nodes :: yaml_nodes
  yaml_entryNode :: "string option"
  yaml_edges :: "YAMLEdge list option"

text \<open>
  The object format is tested by \<open>yaml.nodes[k]\<close>, which is also truthy for a name that
  the object inherits from \<open>Object.prototype\<close>.
\<close>

definition object_prototype_keys :: "string list" where
  "object_prototype_keys =
     [''constructor'', ''hasOwnProperty'', ''isPrototypeOf'', ''propertyIsEnumerable'',
      ''toLocaleString'', ''toString'', ''valueOf'', ''__defineGetter__'',
      ''__defineSetter__'', ''__lookupGetter__'', ''__lookupSetter__'', ''__proto__'']"

definition node_exists :: "yaml_nodes \<Rightarrow> string \<Rightarrow> bool" where
  "node_exists ns k = (case ns of NoNodes \<Rightarrow> False
                       | NodeArray ids \<Rightarrow> k \<in> set ids
                       | NodeObject keys \<Rightarrow> k \<in> set keys \<or> k \<in> set object_prototype_keys)"

fun validateYAML_edges :: "yaml_nodes \<Rightarrow> YAMLEdge list \<Rightarrow> error + unit" where
  "validateYAML_edges ns [] = Inr ()"
| "validateYAML_edges ns (edge # rest) =
     (if \<not> node_exists ns (yfrom edge) then
        Inl (WorkflowValidationError (''Edge references non-existent node: '' @ yfrom edge))
      else if \<not> node_exists ns (yto edge) then
        Inl (WorkflowValidationError (''Edge references non-existent node: '' @ yto edge))
      else validateYAML_edges ns rest)"

definition validateYAML :: "WorkflowYAMLSpec \<Rightarrow> error + unit" where
  "validateYAML yaml =
     (if \<not> truthy_str (yaml_name yaml) then
        Inl (WorkflowValidationError ''Workflow name is required'')
      else if \<not> truthy_str (yaml_chain yaml) \<or> \<not> truthy_str (yaml_token yaml) then
        Inl (WorkflowValidationError ''Chain and token are required'')
      else if \<not> truthy_str (yaml_maxBudget yaml) then
        Inl (WorkflowValidationError ''maxBudget is required'')
      else if yaml_nodes yaml = NoNodes then
        Inl (WorkflowValidationError ''Workflow must have at least one node'')
      else if (case yaml_nodes yaml of NodeArray ids \<Rightarrow> length ids
               | NodeObject keys \<Rightarrow> length keys | NoNodes \<Rightarrow> 0) = 0 then
        Inl (WorkflowValidationError ''Workflow must have at least one node'')
      else if \<not> truthy_str (yaml_entryNode yaml) then
        Inl (WorkflowValidationError ''entryNode is required'')
      else if \<not> node_exists (yaml_nodes yaml) (the (yaml_entryNode yaml)) then
        Inl (WorkflowValidationError
               (''Entry node '' @ the (yaml_entryNode yaml) @ '' does not exist''))
      else (case yaml_edges yaml of
              None \<Rightarrow> Inr ()
            | Some es \<Rightarrow> validateYAML_edges (yaml_nodes yaml) es))"

subsection \<open>Cycle detection: \<open>detectCycles\<close> (docs/CHALLENGES.md)\<close>

record DepNode =
  dep_id :: string
  depends :: "string list option"

record dfs_state =
  visited :: "string set"
  recursionStack :: "string set"
  cycle_errors :: "string list"

record ValidationResult =
  vr_valid :: bool
  vr_errors :: "string list"
  vr_warnings :: "string list"

text \<open>The separator of \<open>join(' \<rightarrow> ')\<close>: a space, the arrow U+2192 in UTF-8, a space.\<close>

definition arrow :: string where
  "arrow = [CHR '' '', CHR 0xE2, CHR 0x86, CHR 0x92, CHR '' '']"

definition find_node :: "DepNode list \<Rightarrow> string \<Rightarrow> DepNode option" where
  "find_node nodes nodeId = find (\<lambda>n. dep_id n = nodeId) nodes"

definition dependencies :: "DepNode \<Rightarrow> string list" where
  "dependencies node = (case depends node of None \<Rightarrow> [] | Some ds \<Rightarrow> ds)"

text \<open>
  The closure \<open>dfs\<close> and its loop over the dependencies. The first argument bounds the
  depth of the recursion: \<open>None\<close> means the bound was reached. The three sets of the
  source are threaded as a state; the result is the returned flag and the state.
\<close>

fun dfs :: "nat \<Rightarrow> DepNode list \<Rightarrow> string \<Rightarrow> string list \<Rightarrow> dfs_state
            \<Rightarrow> (bool \<times> dfs_state) option"
and dfs_deps :: "nat \<Rightarrow> DepNode list \<Rightarrow> string list \<Rightarrow> string list \<Rightarrow> dfs_state
            \<Rightarrow> (bool \<times> dfs_state) option"
where
  "dfs 0 nodes nodeId path s = None"
| "dfs (Suc n) nodes nodeId path s =
     (let s1 = s\<lparr> visited := insert nodeId (visited s),
                  recursionStack := insert nodeId (recursionStack s) \<rparr>
      in case find_node nodes nodeId of
           None \<Rightarrow> Some (False, s1)
         | Some node \<Rightarrow>
             (case dfs_deps n nodes path (dependencies node) s1 of
                None \<Rightarrow> None
              | Some r \<Rightarrow>
                  if fst r then Some (True, snd r)
                  else Some (False, (snd r)\<lparr> recursionStack := recursionStack (snd r) - {nodeId} \<rparr>)))"
| "dfs_deps n nodes path [] s = Some (False, s)"
| "dfs_deps n nodes path (depId # rest) s =
     (if depId \<notin> visited s then
        (case dfs n nodes depId (path @ [depId]) s of
           None \<Rightarrow> None
         | Some r \<Rightarrow> if fst r then Some (True, snd r) else dfs_deps n nodes path rest (snd r))
      else if depId \<in> recursionStack s then
        Some (True, s\<lparr> cycle_errors := cycle_errors s @
                 [''Circular dependency detected: '' @ join arrow (path @ [depId])] \<rparr>)
      else dfs_deps n nodes path rest s)"

text \<open>The outer loop: every node not yet visited starts a traversal.\<close>

fun check_all :: "nat \<Rightarrow> DepNode list \<Rightarrow> DepNode list \<Rightarrow> dfs_state \<Rightarrow> dfs_state option" where
  "check_all n nodes [] s = Some s"
| "check_all n nodes (node # rest) s =
     (if dep_id node \<notin> visited s then
        (case dfs n nodes (dep_id node) [dep_id node] s of
           None \<Rightarrow> None
         | Some r \<Rightarrow> check_all n nodes rest (snd r))
      else check_all n nodes rest s)"

text \<open>
  A traversal never nests deeper than the number of distinct ids of the workflow, which
  the number of nodes plus the number of dependency entries bounds.
\<close>

definition depth_bound :: "DepNode list \<Rightarrow> nat" where
  "depth_bound nodes = Suc (length nodes + length (concat (map dependencies nodes)))"

definition detectCycles :: "DepNode list \<Rightarrow> ValidationResult option" where
  "detectCycles nodes =
     (case check_all (depth_bound nodes) nodes nodes
             \<lparr> visited = {}, recursionStack = {}, cycle_errors = [] \<rparr> of
        None \<Rightarrow> None
      | Some s \<Rightarrow> Some \<lparr> vr_valid = (cycle_errors s = []), vr_errors = cycle_errors s,
                         vr_warnings = [] \<rparr>)"

text \<open>Whether a string occurs inside another.\<close>

definition occurs_in :: "string \<Rightarrow> string \<Rightarrow> bool" where
  "occurs_in pat s = (find_sub pat s \<noteq> None)"

subsection \<open>The dependency graph and the invariants of the traversal\<close>

text \<open>
  The graph that \<open>dfs\<close> walks: the successors of an id are the dependencies of the
  first node declared with it; an id that no node declares has none.
\<close>

definition succs :: "DepNode list \<Rightarrow> string \<Rightarrow> string list" where
  "succs nodes n = (case find_node nodes n of None \<Rightarrow> [] | Some node \<Rightarrow> dependencies node)"

text \<open>
  An edge of the workflow runs against the dependency: from \<open>a\<close> to \<open>b\<close> when \<open>b\<close>
  depends on \<open>a\<close>, as in the fixture of the documentation.
\<close>

definition has_edge :: "DepNode list \<Rightarrow> string \<Rightarrow> string \<Rightarrow> bool" where
  "has_edge nodes a b = (a \<in> set (succs nodes b))"

definition dep_rel :: "DepNode list \<Rightarrow> (string \<times> string) set" where
  "dep_rel nodes = {(a, b). b \<in> set (succs nodes a)}"

text \<open>Every id that a traversal can meet, and the state on entering a node.\<close>

definition all_ids :: "DepNode list \<Rightarrow> string set" where
  "all_ids nodes = set (map dep_id nodes) \<union> set (concat (map dependencies nodes))"

definition enter :: "string \<Rightarrow> dfs_state \<Rightarrow> dfs_state" where
  "enter x s = s\<lparr> visited := insert x (visited s), recursionStack := insert x (recursionStack s) \<rparr>"

text \<open>
  An id is settled when it has been visited and has left the stack; an undeclared id
  never leaves the stack, and counts as settled once visited. As long as no error has
  been recorded, the successors of every node that has left the stack are settled and no
  such node lies on a cycle; and a traversal that reports nothing leaves the declared
  part of the stack as it found it.
\<close>

definition settled :: "DepNode list \<Rightarrow> dfs_state \<Rightarrow> string \<Rightarrow> bool" where
  "settled nodes s d = (d \<in> visited s \<and> (d \<notin> recursionStack s \<or> find_node nodes d = None))"

definition dfs_inv :: "DepNode list \<Rightarrow> dfs_state \<Rightarrow> bool" where
  "dfs_inv nodes s =
     (recursionStack s \<subseteq> visited s
      \<and> (\<forall>x. x \<in> visited s \<and> x \<notin> recursionStack s \<longrightarrow>
             (\<forall>d \<in> set (succs nodes x). settled nodes s d) \<and> (x, x) \<notin> (dep_rel nodes)\<^sup>+))"

definition same_stack :: "DepNode list \<Rightarrow> dfs_state \<Rightarrow> dfs_state \<Rightarrow> bool" where
  "same_stack nodes s t =
     (\<forall>y. find_node nodes y \<noteq> None \<longrightarrow> (y \<in> recursionStack t \<longleftrightarrow> y \<in> recursionStack s))"

text \<open>
  A cycle of dependencies through three distinct nodes that have no other dependency
  (\<open>a\<close> depends on \<open>b\<close>, \<open>b\<close> on \<open>c\<close>, \<open>c\<close> on \<open>a\<close>), and an error text that ends
  with the closed path \<open>a\<close>, \<open>b\<close>, \<open>c\<close>, \<open>a\<close>.
\<close>

definition simple_cycle :: "DepNode list \<Rightarrow> string \<Rightarrow> string \<Rightarrow> string \<Rightarrow> bool" where
  "simple_cycle nodes a b c =
     (distinct [a, b, c] \<and> succs nodes a = [b] \<and> succs nodes b = [c] \<and> succs nodes c = [a])"

definition cycle_report :: "string \<Rightarrow> string \<Rightarrow> string \<Rightarrow> string \<Rightarrow> bool" where
  "cycle_report a b c e =
     (\<exists>pre. e = ''Circular dependency detected: '' @ join arrow (pre @ [a, b, c, a]))"

definition reported :: "string \<Rightarrow> string \<Rightarrow> string \<Rightarrow> dfs_state \<Rightarrow> bool" where
  "reported a b c s =
     (\<exists>e \<in> set (cycle_errors s).
        cycle_report a b c e \<or> cycle_report b c a e \<or> cycle_report c a b e)"

definition untouched_or_reported :: "string \<Rightarrow> string \<Rightarrow> string \<Rightarrow> dfs_state \<Rightarrow> bool" where
  "untouched_or_reported a b c s =
     ((a \<notin> visited s \<and> b \<notin> visited s \<and> c \<notin> visited s) \<or> reported a b c s)"

section \<open>Dialogue orchestrator: \<open>DialogueExecutor\<close> (src/execution)\<close>

subsection \<open>Data\<close>

datatype dialogue_mode = sequential | round_robin | dynamic | other_mode

record DialogueTurn =
  turn_speaker :: string
  turn_prompt :: string
  respondTo :: "string list option"

record DialogueConfig =
  dlg_mode :: dialogue_mode
  dlg_participants :: "string list"
  dlg_turns :: "DialogueTurn list"
  maxTurns :: "int option"
  endCondition :: "string option"

record AgentDefinition =
  agent_ref :: string
  endpointUrl :: "string option"

record DialogueTurnResult =
  turnId :: string
  tr_speaker :: string
  tr_prompt :: string
  tr_response :: string
  tr_timestamp :: int
  tr_cost :: string

record DialogueContext =
  ctx_turns :: "DialogueTurnResult list"
  ctx_participants :: "(string \<times> AgentDefinition) list"
  conversationHistory :: "string list"

record WorkflowNode =
  wn_id :: string
  wn_name :: string
  wn_agentRef :: "string option"
  wn_dialogue :: "DialogueConfig option"

text \<open>
  What an agent call returns, by the shapes \<open>executeTurn\<close> tells apart: an A2A message
  with its parts; an object with a truthy \<open>output\<close> (its \<open>response\<close>, its \<open>text\<close> and
  its JSON text); an object with a \<open>text\<close>; anything else, by its JSON text. The texts
  of \<open>JSON.stringify\<close> come with the result.
\<close>

datatype message_part = TextPart string | DataPart "string option" | OtherPart

datatype result_body =
    MessageResult "message_part list"
  | OutputResult "string option" "string option" string
  | TextResult string
  | OtherResult string

record A2AExecutionResult =
  body :: result_body
  cost_field :: "string option"

text \<open>
  The collaborators of the executor. The agent call, \<open>uuidv4()\<close> and \<open>new Date()\<close> are
  effects; each is a function of the number of turns completed so far, which advances
  with every successful call, so successive calls may answer differently. \<open>addCost\<close> is
  the floating-point step \<open>(parseFloat(sum) + parseFloat(turn.cost)).toString()\<close>, and
  \<open>dateString\<close> the text that \<open>String\<close> gives a \<open>Date\<close> in the host's zone.
\<close>

record env =
  getAgent :: "string \<Rightarrow> AgentDefinition option"
  callAgent :: "nat \<Rightarrow> string \<Rightarrow> string \<Rightarrow> error + A2AExecutionResult"
  uuidv4 :: "nat \<Rightarrow> string"
  clock :: "nat \<Rightarrow> int"
  addCost :: "string \<Rightarrow> string \<Rightarrow> string"
  dateString :: "int \<Rightarrow> string"

text \<open>
  Modelled from the spec: the type \<open>NodeRun\<close> and its status values are declared in
  \<open>types/execution.types.ts\<close>, which is not among the sources; the status values are
  those of the run-result model of the specification.
\<close>

datatype run_status = queued | running | completed | failed | cancelled

record DialogueSummary =
  totalTurns :: nat
  summary_participants :: "string list"
  startTime_of :: "int option"
  endTime_of :: "int option"
  summary_history :: "string list"

record DialogueOutput =
  out_turns :: "DialogueTurnResult list"
  out_conversationHistory :: "string list"
  out_summary :: DialogueSummary

record NodeRun =
  nodeRunId :: string
  runId :: string
  nodeId :: string
  agentRef :: string
  status :: run_status
  startedAt :: int
  endedAt :: int
  run_inputs :: "(string \<times> jsval) list"
  run_output :: DialogueOutput
  cost :: string
  retryCount :: nat
  logs :: "string list"

subsection \<open>Helpers\<close>

text \<open>\<open>Map.set\<close>: a known key keeps its place, a new key goes last.\<close>

fun map_set :: "'k \<Rightarrow> 'v \<Rightarrow> ('k \<times> 'v) list \<Rightarrow> ('k \<times> 'v) list" where
  "map_set k v [] = [(k, v)]"
| "map_set k v (kv # kvs) = (if fst kv = k then (k, v) # kvs else kv # map_set k v kvs)"

text \<open>\<open>xs.slice(-n)\<close>.\<close>

definition last_n :: "nat \<Rightarrow> 'a list \<Rightarrow> 'a list" where
  "last_n n xs = drop (length xs - n) xs"

text \<open>
  \<open>toUpperCase\<close> on the letters of ASCII, of which agent references are made; the case
  mapping of other scripts is outside the model.
\<close>

definition to_upper :: "char \<Rightarrow> char" where
  "to_upper c =
     (case map_of (zip ''abcdefghijklmnopqrstuvwxyz'' ''ABCDEFGHIJKLMNOPQRSTUVWXYZ'') c of
        None \<Rightarrow> c
      | Some u \<Rightarrow> u)"

definition getSpeakerName :: "string \<Rightarrow> string" where
  "getSpeakerName speakerRef =
     (let parts = split_on (CHR ''-'') speakerRef in
      if length parts > 0
      then map to_upper (if parts ! 0 \<noteq> [] then parts ! 0 else ''UNKNOWN'')
      else ''UNKNOWN'')"

text \<open>A turn result as the template resolver sees it; its \<open>timestamp\<close> is a \<open>Date\<close>.\<close>

definition turn_json :: "env \<Rightarrow> DialogueTurnResult \<Rightarrow> jsval" where
  "turn_json e t =
     JObj [(''turnId'', JStr (turnId t)), (''speaker'', JStr (tr_speaker t)),
           (''prompt'', JStr (tr_prompt t)), (''response'', JStr (tr_response t)),
           (''timestamp'', JDate (dateString e (tr_timestamp t))), (''cost'', JStr (tr_cost t))]"

text \<open>
  \<open>Object.values(v)\<close> and the element text of \<open>Array.prototype.join\<close>. The values of an
  object come in the order of its keys: the array indices (the canonical numerals below
  \<open>2^32 - 1\<close>) in ascending order, then the other keys as they were inserted.
\<close>

definition index_key :: "string \<Rightarrow> bool" where
  "index_key k = (case array_index k of None \<Rightarrow> False | Some i \<Rightarrow> i < 4294967295)"

fun object_values :: "jsval \<Rightarrow> jsval list" where
  "object_values (JObj kvs) =
     map snd (sort_key (\<lambda>kv. nat (digits_val (fst kv))) (filter (\<lambda>kv. index_key (fst kv)) kvs))
     @ map snd (filter (\<lambda>kv. \<not> index_key (fst kv)) kvs)"
| "object_values (JArr xs) = xs"
| "object_values (JStr s) = map (\<lambda>c. JStr [c]) s"
| "object_values v = []"

definition join_text :: "jsval \<Rightarrow> string" where
  "join_text v = (if v = JUndefined \<or> v = JNull then [] else to_String v)"

subsection \<open>Turns\<close>

definition extract_response :: "result_body \<Rightarrow> string" where
  "extract_response b =
     (case b of
        MessageResult parts \<Rightarrow>
          concat (map (\<lambda>part. case part of
                                 TextPart t \<Rightarrow> t
                               | DataPart r \<Rightarrow> (if truthy_str r then the r else [])
                               | OtherPart \<Rightarrow> []) parts)
      | OutputResult r t json \<Rightarrow>
          (if truthy_str r then the r else if truthy_str t then the t else json)
      | TextResult t \<Rightarrow> t
      | OtherResult json \<Rightarrow> json)"

definition turnContext :: "env \<Rightarrow> DialogueContext \<Rightarrow> (string \<times> jsval) list \<Rightarrow> jsval" where
  "turnContext e context workflowContext =
     JObj ((''previousTurns'', JArr (map (turn_json e) (ctx_turns context)))
           # (''conversationHistory'', JArr (map JStr (conversationHistory context)))
           # workflowContext)"

definition executeTurn ::
  "env \<Rightarrow> DialogueTurn \<Rightarrow> DialogueContext \<Rightarrow> (string \<times> jsval) list \<Rightarrow> error + DialogueContext"
where
  "executeTurn e turn context workflowContext =
     (case map_of (ctx_participants context) (turn_speaker turn) of
        None \<Rightarrow> Inr context
      | Some agent \<Rightarrow>
          (case resolve (turn_prompt turn) (turnContext e context workflowContext) of
             Inl err \<Rightarrow> Inl err
           | Inr resolvedPrompt \<Rightarrow>
               if \<not> truthy_str (endpointUrl agent) then
                 Inl (Error (''Agent '' @ agent_ref agent @ '' has no endpoint URL configured''))
               else
                 (case callAgent e (length (ctx_turns context)) (the (endpointUrl agent))
                         resolvedPrompt of
                    Inl err \<Rightarrow> Inl err
                  | Inr result \<Rightarrow>
                      (let turnResult =
                             \<lparr> turnId = uuidv4 e (length (ctx_turns context)),
                               tr_speaker = turn_speaker turn,
                               tr_prompt = resolvedPrompt,
                               tr_response = extract_response (body result),
                               tr_timestamp = clock e (length (ctx_turns context)),
                               tr_cost = (if truthy_str (cost_field result)
                                          then the (cost_field result) else ''0'') \<rparr>
                       in Inr (context
                            \<lparr> ctx_turns := ctx_turns context @ [turnResult],
                              conversationHistory := conversationHistory context @
                                [getSpeakerName (turn_speaker turn) @ '': ''
                                 @ tr_response turnResult] \<rparr>)))))"

definition generateDynamicPrompt ::
  "string \<Rightarrow> DialogueContext \<Rightarrow> (string \<times> jsval) list \<Rightarrow> string"
where
  "generateDynamicPrompt speakerRef context workflowContext =
     (let recentHistory = join [CHR 0x0A] (last_n 3 (conversationHistory context));
          source = (case map_of workflowContext ''inputs'' of
                      Some v \<Rightarrow> if is_truthy v then v else JObj workflowContext
                    | None \<Rightarrow> JObj workflowContext);
          joined = join '', '' (map join_text (object_values source));
          topic = (if joined = [] then ''the current topic'' else joined)
      in ''Based on the conversation so far:'' @ [CHR 0x0A] @ recentHistory
         @ [CHR 0x0A, CHR 0x0A] @ ''Please provide your perspective on: '' @ topic)"

definition selectNextSpeaker :: "string list \<Rightarrow> DialogueContext \<Rightarrow> string" where
  "selectNextSpeaker ps context =
     (let recentSpeakers = map tr_speaker (last_n 2 (ctx_turns context)) in
      case find (\<lambda>p. p \<notin> set recentSpeakers) ps of
        Some p \<Rightarrow> p
      | None \<Rightarrow> (case ps of [] \<Rightarrow> [] | p # _ \<Rightarrow> p))"

subsection \<open>End condition\<close>

definition conditionContext :: "DialogueContext \<Rightarrow> (string \<times> jsval) list \<Rightarrow> jsval" where
  "conditionContext context workflowContext =
     JObj ((''lastResponse'',
              JStr (case ctx_turns context of [] \<Rightarrow> [] | _ # _ \<Rightarrow> tr_response (last (ctx_turns context))))
           # (''turnCount'', JNum (int (length (ctx_turns context))))
           # workflowContext)"

definition shouldEndDialogue ::
  "string \<Rightarrow> DialogueContext \<Rightarrow> (string \<times> jsval) list \<Rightarrow> bool"
where
  "shouldEndDialogue cond context workflowContext =
     (case resolve cond (conditionContext context workflowContext) of
        Inl err \<Rightarrow> False
      | Inr r \<Rightarrow> r = ''true'')"

text \<open>The test at the head of every loop: \<open>dialogue.endCondition && shouldEndDialogue(...)\<close>.\<close>

definition end_condition_met ::
  "DialogueConfig \<Rightarrow> DialogueContext \<Rightarrow> (string \<times> jsval) list \<Rightarrow> bool"
where
  "end_condition_met dialogue context workflowContext =
     (truthy_str (endCondition dialogue)
      \<and> shouldEndDialogue (the (endCondition dialogue)) context workflowContext)"

subsection \<open>The three modes\<close>

fun sequential_loop ::
  "env \<Rightarrow> DialogueConfig \<Rightarrow> (string \<times> jsval) list \<Rightarrow> DialogueTurn list \<Rightarrow> DialogueContext
   \<Rightarrow> error + DialogueContext"
where
  "sequential_loop e dialogue workflowContext [] context = Inr context"
| "sequential_loop e dialogue workflowContext (turn # rest) context =
     (if end_condition_met dialogue context workflowContext then Inr context
      else (case executeTurn e turn context workflowContext of
              Inl err \<Rightarrow> Inl err
            | Inr context' \<Rightarrow> sequential_loop e dialogue workflowContext rest context'))"

definition executeSequentialDialogue ::
  "env \<Rightarrow> DialogueConfig \<Rightarrow> DialogueContext \<Rightarrow> (string \<times> jsval) list \<Rightarrow> int
   \<Rightarrow> error + DialogueContext"
where
  "executeSequentialDialogue e dialogue context workflowContext maxT =
     sequential_loop e dialogue workflowContext
       (take (nat (min (int (length (dlg_turns dialogue))) maxT)) (dlg_turns dialogue)) context"

text \<open>
  One round-robin iteration after the end-condition test: the speaker at
  \<open>currentIndex\<close> takes a synthesized turn. An empty list of participants, or an empty
  reference, yields no speaker, and the iteration is skipped.
\<close>

definition round_robin_turn ::
  "env \<Rightarrow> DialogueConfig \<Rightarrow> (string \<times> jsval) list \<Rightarrow> nat \<Rightarrow> DialogueContext
   \<Rightarrow> error + DialogueContext"
where
  "round_robin_turn e dialogue workflowContext currentIndex context =
     (let ps = dlg_participants dialogue;
          sp = (if ps = [] then [] else ps ! (currentIndex mod length ps))
      in if sp = [] then Inr context
         else executeTurn e
                \<lparr> turn_speaker = sp,
                  turn_prompt = generateDynamicPrompt sp context workflowContext,
                  respondTo = Some (map turnId (last_n 3 (ctx_turns context))) \<rparr>
                context workflowContext)"

fun round_robin_loop ::
  "env \<Rightarrow> DialogueConfig \<Rightarrow> (string \<times> jsval) list \<Rightarrow> nat \<Rightarrow> nat \<Rightarrow> DialogueContext
   \<Rightarrow> error + DialogueContext"
where
  "round_robin_loop e dialogue workflowContext 0 currentIndex context = Inr context"
| "round_robin_loop e dialogue workflowContext (Suc left) currentIndex context =
     (if end_condition_met dialogue context workflowContext then Inr context
      else (case round_robin_turn e dialogue workflowContext currentIndex context of
              Inl err \<Rightarrow> Inl err
            | Inr context' \<Rightarrow>
                round_robin_loop e dialogue workflowContext left (Suc currentIndex) context'))"

definition executeRoundRobinDialogue ::
  "env \<Rightarrow> DialogueConfig \<Rightarrow> DialogueContext \<Rightarrow> (string \<times> jsval) list \<Rightarrow> int
   \<Rightarrow> error + DialogueContext"
where
  "executeRoundRobinDialogue e dialogue context workflowContext maxT =
     round_robin_loop e dialogue workflowContext (nat maxT) 0 context"

text \<open>
  One dynamic iteration after the end-condition test; \<open>None\<close> is the \<open>break\<close> taken
  when no speaker is selected.
\<close>

definition dynamic_turn ::
  "env \<Rightarrow> DialogueConfig \<Rightarrow> (string \<times> jsval) list \<Rightarrow> DialogueContext
   \<Rightarrow> error + DialogueContext option"
where
  "dynamic_turn e dialogue workflowContext context =
     (let nextSpeaker = selectNextSpeaker (dlg_participants dialogue) context
      in if nextSpeaker = [] then Inr None
         else (case executeTurn e
                      \<lparr> turn_speaker = nextSpeaker,
                        turn_prompt = generateDynamicPrompt nextSpeaker context workflowContext,
                        respondTo = Some (map turnId (last_n 2 (ctx_turns context))) \<rparr>
                      context workflowContext of
                 Inl err \<Rightarrow> Inl err
               | Inr context' \<Rightarrow> Inr (Some context')))"

fun dynamic_loop ::
  "env \<Rightarrow> DialogueConfig \<Rightarrow> (string \<times> jsval) list \<Rightarrow> nat \<Rightarrow> DialogueContext
   \<Rightarrow> error + DialogueContext"
where
  "dynamic_loop e dialogue workflowContext 0 context = Inr context"
| "dynamic_loop e dialogue workflowContext (Suc left) context =
     (if end_condition_met dialogue context workflowContext then Inr context
      else (case dynamic_turn e dialogue workflowContext context of
              Inl err \<Rightarrow> Inl err
            | Inr None \<Rightarrow> Inr context
            | Inr (Some context') \<Rightarrow> dynamic_loop e dialogue workflowContext left context'))"

definition executeDynamicDialogue ::
  "env \<Rightarrow> DialogueConfig \<Rightarrow> DialogueContext \<Rightarrow> (string \<times> jsval) list \<Rightarrow> int
   \<Rightarrow> error + DialogueContext"
where
  "executeDynamicDialogue e dialogue context workflowContext maxT =
     dynamic_loop e dialogue workflowContext (nat maxT) context"

subsection \<open>\<open>executeDialogue\<close>\<close>

definition init_participants :: "env \<Rightarrow> string list \<Rightarrow> (string \<times> AgentDefinition) list" where
  "init_participants e refs =
     foldl (\<lambda>m participantRef. case getAgent e participantRef of
                                  None \<Rightarrow> m
                                | Some agent \<Rightarrow> map_set participantRef agent m) [] refs"

definition generateDialogueSummary :: "DialogueContext \<Rightarrow> DialogueSummary" where
  "generateDialogueSummary context =
     \<lparr> totalTurns = length (ctx_turns context),
       summary_participants = map fst (ctx_participants context),
       startTime_of = (case ctx_turns context of [] \<Rightarrow> None | t # _ \<Rightarrow> Some (tr_timestamp t)),
       endTime_of = (case ctx_turns context of [] \<Rightarrow> None
                     | _ # _ \<Rightarrow> Some (tr_timestamp (last (ctx_turns context)))),
       summary_history = conversationHistory context \<rparr>"

definition run_mode ::
  "env \<Rightarrow> DialogueConfig \<Rightarrow> DialogueContext \<Rightarrow> (string \<times> jsval) list \<Rightarrow> int
   \<Rightarrow> error + DialogueContext"
where
  "run_mode e dialogue context workflowContext maxT =
     (case dlg_mode dialogue of
        sequential \<Rightarrow> executeSequentialDialogue e dialogue context workflowContext maxT
      | round_robin \<Rightarrow> executeRoundRobinDialogue e dialogue context workflowContext maxT
      | dynamic \<Rightarrow> executeDynamicDialogue e dialogue context workflowContext maxT
      | other_mode \<Rightarrow> Inr context)"

definition executeDialogue ::
  "env \<Rightarrow> WorkflowNode \<Rightarrow> (string \<times> jsval) list \<Rightarrow> string \<Rightarrow> error + NodeRun"
where
  "executeDialogue e dialogueNode workflowContext rid =
     (case wn_dialogue dialogueNode of
        None \<Rightarrow> Inl (Error ''No dialogue configuration found'')
      | Some dialogue \<Rightarrow>
          (let dialogueContext =
                 \<lparr> ctx_turns = [],
                   ctx_participants = init_participants e (dlg_participants dialogue),
                   conversationHistory = [] \<rparr>;
               maxT = num_or (maxTurns dialogue) (int (length (dlg_turns dialogue)))
           in case run_mode e dialogue dialogueContext workflowContext maxT of
                Inl err \<Rightarrow> Inl err
              | Inr final \<Rightarrow>
                  Inr \<lparr> nodeRunId = uuidv4 e (length (ctx_turns final)),
                        runId = rid,
                        nodeId = wn_id dialogueNode,
                        agentRef = (if truthy_str (wn_agentRef dialogueNode)
                                    then the (wn_agentRef dialogueNode) else ''dialogue''),
                        status = completed,
                        startedAt = clock e (length (ctx_turns final)),
                        endedAt = clock e (length (ctx_turns final)),
                        run_inputs = workflowContext,
                        run_output = \<lparr> out_turns = ctx_turns final,
                                   out_conversationHistory = conversationHistory final,
                                   out_summary = generateDialogueSummary final \<rparr>,
                        cost = foldl (addCost e) ''0'' (map tr_cost (ctx_turns final)),
                        retryCount = 0,
                        logs = [''Completed '' @ show_nat (length (ctx_turns final))
                                @ '' dialogue turns''] \<rparr>))"

section \<open>Fixtures\<close>

text \<open>
  The office-hours window of the schedule tests, and Saturday 6 January 2024, 20:00:00
  (epoch day 19728), read in the window's own time zone.
\<close>

definition office_hours :: AgentSchedule where
  "office_hours = \<lparr> startTime = Some ''09:00'', endTime = Some ''17:00'',
                    timezone = Some ''UTC'', daysOfWeek = Some [1, 2, 3, 4, 5] \<rparr>"

definition saturday_2000 :: int where
  "saturday_2000 = 19728 * 86400000 + 20 * 3600000"

text \<open>
  A tick manager that has recorded one tick of actor \<open>a\<close> at 10000 ms, and three
  enabled configurations: an interval of zero, no interval at all (what
  \<open>parseTickConfig\<close> leaves when the document gives none), and a maximum of zero ticks
  per round.
\<close>

definition one_tick :: TickManager where
  "one_tick = recordTick \<lparr> tickCounts = Map.empty, lastTickTimes = Map.empty \<rparr> 10000 ''a''"

definition zero_interval :: AgentTickConfig where
  "zero_interval = \<lparr> enabled = True, intervalMs = Some 0, intervalSeconds = None,
                      intervalMinutes = None, maxTicksPerRound = None \<rparr>"

definition no_interval :: AgentTickConfig where
  "no_interval = \<lparr> enabled = True, intervalMs = None, intervalSeconds = None,
                    intervalMinutes = None, maxTicksPerRound = None \<rparr>"

definition zero_maximum :: AgentTickConfig where
  "zero_maximum = \<lparr> enabled = True, intervalMs = Some 5000, intervalSeconds = None,
                     intervalMinutes = None, maxTicksPerRound = Some 0 \<rparr>"

definition history_ctx :: jsval where
  "history_ctx = JObj [(''history'', JArr [JStr ''x'', JStr ''y'', JStr ''z''])]"

definition history_result :: NodeResult where
  "history_result = \<lparr> result_id = ''history'', result_status = result_completed,
                      result_output = JArr [JStr ''x'', JStr ''y'', JStr ''z''],
                      result_error = None, result_duration = None \<rparr>"

text \<open>
  Two workflows with two defects each, a duplicated node id and an edge to an
  undeclared node \<open>ghost\<close>, one for each parser; a document with a defect of every
  kind; a document whose first node is \<open>null\<close>; and a document whose only edge leads to
  \<open>output\<close>, which no node declares.
\<close>

definition two_defects_yaml :: WorkflowYAMLSpec where
  "two_defects_yaml = \<lparr> yaml_name = Some ''wf'', yaml_chain = Some ''base'',
       yaml_token = Some ''USDC'', yaml_maxBudget = Some ''5.0'',
       yaml_nodes = NodeArray [''a'', ''a''], yaml_entryNode = Some ''a'',
       yaml_edges = Some [\<lparr> yfrom = ''a'', yto = ''ghost'' \<rparr>,
                          \<lparr> yfrom = ''phantom'', yto = ''a'' \<rparr>] \<rparr>"

definition two_defects_doc :: ParsedDoc where
  "two_defects_doc = \<lparr> doc_name = Some ''wf'', doc_version = Some ''1.0.0'',
       doc_nodes = Array [Some \<lparr> node_id = Some ''a'', node_ref = Some ''agent-v1'' \<rparr>,
                          Some \<lparr> node_id = Some ''a'', node_ref = Some ''agent-v1'' \<rparr>],
       doc_edges = Array [Some \<lparr> edge_from = Some ''a'', edge_to = Some ''ghost'' \<rparr>] \<rparr>"

definition all_defects_doc :: ParsedDoc where
  "all_defects_doc = \<lparr> doc_name = None, doc_version = Some [],
       doc_nodes = Array [Some \<lparr> node_id = Some ''a'', node_ref = Some ''agent-v1'' \<rparr>,
                          Some \<lparr> node_id = None, node_ref = None \<rparr>,
                          Some \<lparr> node_id = Some ''a'', node_ref = None \<rparr>],
       doc_edges = Array [Some \<lparr> edge_from = None, edge_to = Some ''ghost'' \<rparr>,
                          Some \<lparr> edge_from = Some ''phantom'', edge_to = None \<rparr>,
                          Some \<lparr> edge_from = Some ''a'', edge_to = Some ''output'' \<rparr>] \<rparr>"

definition null_node_doc :: ParsedDoc where
  "null_node_doc = \<lparr> doc_name = Some ''wf'', doc_version = Some ''1.0.0'',
       doc_nodes = Array [None,
                          Some \<lparr> node_id = Some ''a'', node_ref = Some ''agent-v1'' \<rparr>,
                          Some \<lparr> node_id = Some ''a'', node_ref = Some ''agent-v1'' \<rparr>],
       doc_edges = Array [Some \<lparr> edge_from = Some ''a'', edge_to = Some ''ghost'' \<rparr>] \<rparr>"

definition output_edge_doc :: ParsedDoc where
  "output_edge_doc = \<lparr> doc_name = Some ''wf'', doc_version = Some ''1.0.0'',
       doc_nodes = Array [Some \<lparr> node_id = Some ''step1'', node_ref = Some ''agent-v1'' \<rparr>],
       doc_edges = Array [Some \<lparr> edge_from = Some ''step1'', edge_to = Some ''output'' \<rparr>] \<rparr>"

text \<open>
  The cycle of the documentation (docs/CHALLENGES.md, "A \<rightarrow> B \<rightarrow> C \<rightarrow> A"): an edge
  runs from a node to the node that depends on it, so \<open>nodeB\<close> depends on \<open>nodeA\<close>,
  \<open>nodeC\<close> on \<open>nodeB\<close> and \<open>nodeA\<close> on \<open>nodeC\<close>. Then the same cycle where every
  node also lists itself first, and the cycle as the edges of an engine workflow.
\<close>

definition cycle_nodes :: "DepNode list" where
  "cycle_nodes = [\<lparr> dep_id = ''nodeA'', depends = Some [''nodeC''] \<rparr>,
                  \<lparr> dep_id = ''nodeB'', depends = Some [''nodeA''] \<rparr>,
                  \<lparr> dep_id = ''nodeC'', depends = Some [''nodeB''] \<rparr>]"

definition self_loop_nodes :: "DepNode list" where
  "self_loop_nodes = [\<lparr> dep_id = ''nodeA'', depends = Some [''nodeA'', ''nodeC''] \<rparr>,
                      \<lparr> dep_id = ''nodeB'', depends = Some [''nodeB'', ''nodeA''] \<rparr>,
                      \<lparr> dep_id = ''nodeC'', depends = Some [''nodeC'', ''nodeB''] \<rparr>]"

definition cycle_yaml :: WorkflowYAMLSpec where
  "cycle_yaml = \<lparr> yaml_name = Some ''wf'', yaml_chain = Some ''base'',
       yaml_token = Some ''USDC'', yaml_maxBudget = Some ''5.0'',
       yaml_nodes = NodeArray [''nodeA'', ''nodeB'', ''nodeC''], yaml_entryNode = Some ''nodeA'',
       yaml_edges = Some [\<lparr> yfrom = ''nodeA'', yto = ''nodeB'' \<rparr>,
                          \<lparr> yfrom = ''nodeB'', yto = ''nodeC'' \<rparr>,
                          \<lparr> yfrom = ''nodeC'', yto = ''nodeA'' \<rparr>] \<rparr>"

text \<open>
  A registry that knows the CEO and CTO agents only, agents that answer with a text at
  a cost of \<open>0.01\<close> each, and a sequential dialogue whose last prompt quotes the first
  answer. The sum of the costs is taken as the source takes it, in floating point:
  \<open>parseFloat('0') + parseFloat('0.01')\<close> prints as \<open>0.01\<close>, and
  \<open>parseFloat('0.01') + parseFloat('0.01')\<close> as \<open>0.02\<close>.
\<close>

definition demo_env :: env where
  "demo_env =
     \<lparr> getAgent = (\<lambda>r. if r = ''ceo-agent-v1'' \<or> r = ''cto-agent-v1''
                        then Some \<lparr> agent_ref = r, endpointUrl = Some ''http://localhost:3010'' \<rparr>
                        else None),
       callAgent = (\<lambda>n url p. Inr \<lparr> body = TextResult (''reply '' @ show_nat n),
                                     cost_field = Some ''0.01'' \<rparr>),
       uuidv4 = (\<lambda>n. ''id-'' @ show_nat n),
       clock = (\<lambda>n. 1000 + int n),
       addCost = (\<lambda>total c. if total = ''0'' then c else ''0.02''),
       dateString = (\<lambda>t. ''Date '' @ show_int t) \<rparr>"

definition demo_dialogue :: DialogueConfig where
  "demo_dialogue =
     \<lparr> dlg_mode = sequential,
       dlg_participants = [''ceo-agent-v1'', ''cto-agent-v1'', ''cmo-agent-v1''],
       dlg_turns = [\<lparr> turn_speaker = ''ceo-agent-v1'', turn_prompt = ''Open the meeting'',
                      respondTo = None \<rparr>,
                    \<lparr> turn_speaker = ''cmo-agent-v1'', turn_prompt = ''Marketing view'',
                      respondTo = None \<rparr>,
                    \<lparr> turn_speaker = ''cto-agent-v1'',
                      turn_prompt = ''CEO said: {{conversationHistory.0}}'',
                      respondTo = None \<rparr>],
       maxTurns = None,
       endCondition = Some ''{{stop}}'' \<rparr>"

definition demo_node :: WorkflowNode where
  "demo_node = \<lparr> wn_id = ''discussion'', wn_name = ''Executive discussion'',
                 wn_agentRef = None, wn_dialogue = Some demo_dialogue \<rparr>"

definition empty_context :: DialogueContext where
  "empty_context = \<lparr> ctx_turns = [], ctx_participants = [], conversationHistory = [] \<rparr>"

definition demo_run :: NodeRun where
  "demo_run =
     \<lparr> nodeRunId = ''id-2'', runId = ''run-1'', nodeId = ''discussion'',
       agentRef = ''dialogue'', status = completed, startedAt = 1002, endedAt = 1002,
       run_inputs = [(''stop'', JStr ''no'')],
       run_output =
         \<lparr> out_turns =
             [\<lparr> turnId = ''id-0'', tr_speaker = ''ceo-agent-v1'',
                tr_prompt = ''Open the meeting'', tr_response = ''reply 0'',
                tr_timestamp = 1000, tr_cost = ''0.01'' \<rparr>,
              \<lparr> turnId = ''id-1'', tr_speaker = ''cto-agent-v1'',
                tr_prompt = ''CEO said: CEO: reply 0'', tr_response = ''reply 1'',
                tr_timestamp = 1001, tr_cost = ''0.01'' \<rparr>],
           out_conversationHistory = [''CEO: reply 0'', ''CTO: reply 1''],
           out_summary =
             \<lparr> totalTurns = 2,
               summary_participants = [''ceo-agent-v1'', ''cto-agent-v1''],
               startTime_of = Some 1000, endTime_of = Some 1001,
               summary_history = [''CEO: reply 0'', ''CTO: reply 1''] \<rparr> \<rparr>,
       cost = ''0.02'', retryCount = 0,
       logs = [''Completed 2 dialogue turns''] \<rparr>"







section \<open>Evaluation rules\<close>

lemmas time_eval =
  getWaitTimeMs_def isWithinSchedule_def getDay_def getTimeString_def getHours_def
  getMinutes_def msPerDay_def padStart_def show_int_def show_nat.simps digit_char_def
  Number_def trim_def is_space_def is_digit_def digits_val_def digit_val_def setHours_def

lemmas resolve_eval =
  resolve_def resolveTemplateString_def match_at_def slice_2_m2_def trim_def is_space_def
  getNestedValue_def parseInt_def parse_digits_def is_digit_def digits_val_def
  digit_val_def show_int_def show_nat.simps digit_char_def array_index_def is_nullish_def
  second_part_def str_replace_def

section \<open>Schedule window\<close>

text \<open>
  C1. For the window 09:00 to 17:00 on days 1 to 5 and a current time of Saturday 20:00,
  the wait should run to the following Monday 09:00, 37 hours later. \<open>getWaitTimeMs\<close>
  never consults \<open>daysOfWeek\<close>: it returns 13 hours, the delta to Sunday 09:00, a moment
  at which \<open>isWithinSchedule\<close> still answers no; the schedule first opens at Monday
  09:00.
\<close>

theorem getWaitTimeMs_saturday_evening:
  "getDay saturday_2000 = 6
   \<and> getTimeString saturday_2000 = ''20:00''
   \<and> \<not> isWithinSchedule office_hours saturday_2000
   \<and> getWaitTimeMs office_hours saturday_2000 saturday_2000 = Some (13 * 3600000)
   \<and> getDay (saturday_2000 + 13 * 3600000) = 0
   \<and> getTimeString (saturday_2000 + 13 * 3600000) = ''09:00''
   \<and> \<not> isWithinSchedule office_hours (saturday_2000 + 13 * 3600000)
   \<and> getDay (saturday_2000 + 37 * 3600000) = 1
   \<and> getTimeString (saturday_2000 + 37 * 3600000) = ''09:00''
   \<and> isWithinSchedule office_hours (saturday_2000 + 37 * 3600000)
   \<and> getWaitTimeMs office_hours saturday_2000 saturday_2000 \<noteq> Some (37 * 3600000)"
  by (simp add: office_hours_def saturday_2000_def time_eval)

section \<open>Tick limits\<close>

text \<open>
  C5, as the code has it. \<open>shouldExecute\<close> answers false exactly when the
  configuration is enabled and either less than the interval has elapsed since the
  actor's last tick, or a maximum number of ticks per round is configured and the
  actor's count has reached it; where the interval is \<open>intervalMs || 1000\<close> (one second
  when \<open>intervalMs\<close> is absent or zero), the last tick and the count of an actor never
  seen are \<open>0\<close>, and the maximum is configured when it is a non-zero number. With an
  interval and a maximum that are given and non-zero this is the condition of the
  specification.
\<close>

theorem shouldExecute_false_iff:
  "(shouldExecute tm now agentId cfg = False \<longleftrightarrow>
      (enabled cfg \<and>
        (now - get_or_0 (lastTickTimes tm) agentId < num_or (intervalMs cfg) 1000
         \<or> (truthy_num (maxTicksPerRound cfg)
             \<and> the (maxTicksPerRound cfg) \<le> get_or_0 (tickCounts tm) agentId))))
   \<and> (truthy_num (intervalMs cfg) \<and> maxTicksPerRound cfg \<noteq> Some 0 \<longrightarrow>
        (shouldExecute tm now agentId cfg = False \<longleftrightarrow> blocked_as_specified tm now agentId cfg))"
proof -
  have code: "shouldExecute tm now agentId cfg = False \<longleftrightarrow>
      (enabled cfg \<and>
        (now - get_or_0 (lastTickTimes tm) agentId < num_or (intervalMs cfg) 1000
         \<or> (truthy_num (maxTicksPerRound cfg)
             \<and> the (maxTicksPerRound cfg) \<le> get_or_0 (tickCounts tm) agentId)))"
    by (simp add: shouldExecute_def Let_def)
  have spec: "shouldExecute tm now agentId cfg = False \<longleftrightarrow> blocked_as_specified tm now agentId cfg"
    if "truthy_num (intervalMs cfg)" "maxTicksPerRound cfg \<noteq> Some 0"
  proof -
    from that(1) obtain i where i: "intervalMs cfg = Some i" "i \<noteq> 0"
      by (cases "intervalMs cfg") auto
    show ?thesis
    proof (cases "maxTicksPerRound cfg")
      case None
      with i show ?thesis by (simp add: shouldExecute_def Let_def blocked_as_specified_def)
    next
      case (Some m)
      with that(2) have "m \<noteq> 0" by simp
      with i Some show ?thesis by (simp add: shouldExecute_def Let_def blocked_as_specified_def)
    qed
  qed
  from code spec show ?thesis by blast
qed

theorem shouldExecute_false_iff_witness:
  "shouldExecute (recordTick \<lparr> tickCounts = Map.empty, lastTickTimes = Map.empty \<rparr> 10000 ''a'')
     10100 ''a''
     \<lparr> enabled = True, intervalMs = Some 5000, intervalSeconds = None,
       intervalMinutes = None, maxTicksPerRound = Some 10 \<rparr> = False
   \<and> blocked_as_specified
       (recordTick \<lparr> tickCounts = Map.empty, lastTickTimes = Map.empty \<rparr> 10000 ''a'')
       10100 ''a''
       \<lparr> enabled = True, intervalMs = Some 5000, intervalSeconds = None,
         intervalMinutes = None, maxTicksPerRound = Some 10 \<rparr>
   \<and> shouldExecute (recordTick \<lparr> tickCounts = Map.empty, lastTickTimes = Map.empty \<rparr> 10000 ''a'')
     16000 ''a''
     \<lparr> enabled = True, intervalMs = Some 5000, intervalSeconds = None,
       intervalMinutes = None, maxTicksPerRound = Some 10 \<rparr> = True
   \<and> \<not> blocked_as_specified
       (recordTick \<lparr> tickCounts = Map.empty, lastTickTimes = Map.empty \<rparr> 10000 ''a'')
       16000 ''a''
       \<lparr> enabled = True, intervalMs = Some 5000, intervalSeconds = None,
         intervalMinutes = None, maxTicksPerRound = Some 10 \<rparr>"
  using shouldExecute_false_iff
    [of "recordTick \<lparr> tickCounts = Map.empty, lastTickTimes = Map.empty \<rparr> 10000 ''a''"
        10100 "''a''"
        "\<lparr> enabled = True, intervalMs = Some 5000, intervalSeconds = None,
           intervalMinutes = None, maxTicksPerRound = Some 10 \<rparr>"]
    shouldExecute_false_iff
    [of "recordTick \<lparr> tickCounts = Map.empty, lastTickTimes = Map.empty \<rparr> 10000 ''a''"
        16000 "''a''"
        "\<lparr> enabled = True, intervalMs = Some 5000, intervalSeconds = None,
           intervalMinutes = None, maxTicksPerRound = Some 10 \<rparr>"]
  by (simp add: recordTick_def get_or_0_def blocked_as_specified_def)

text \<open>
  C5, as stated, fails at the values that the code replaces. 999 ms after a tick, with
  an interval of zero or with none, no time less than the interval has elapsed and no
  maximum is configured, so the statement makes the answer true; \<open>shouldExecute\<close> reads
  the interval as one second and answers false. With a maximum of zero ticks per round
  and the interval elapsed, the count has reached the maximum, so the statement makes
  the answer false; \<open>shouldExecute\<close> takes the zero for no maximum and answers true.
\<close>

theorem shouldExecute_replaces_zero:
  "shouldExecute one_tick 10999 ''a'' zero_interval = False
   \<and> \<not> blocked_as_specified one_tick 10999 ''a'' zero_interval
   \<and> shouldExecute one_tick 10999 ''a'' no_interval = False
   \<and> \<not> blocked_as_specified one_tick 10999 ''a'' no_interval
   \<and> shouldExecute one_tick 16000 ''a'' zero_maximum = True
   \<and> blocked_as_specified one_tick 16000 ''a'' zero_maximum"
  by (simp add: shouldExecute_def blocked_as_specified_def one_tick_def zero_interval_def
        no_interval_def zero_maximum_def recordTick_def get_or_0_def)

text \<open>
  C8. \<open>resetRound\<close> sets the actor's tick count to zero, leaves every last-tick time
  and the count of every other actor as they were; so right after it an enabled
  \<open>shouldExecute\<close> still answers no while the interval has not elapsed, and yes once it
  has, whatever the count was before, when the configured maximum (if any) is positive.
\<close>

theorem resetRound_frame:
  "getTickCount (resetRound tm agentId) agentId = 0
   \<and> lastTickTimes (resetRound tm agentId) = lastTickTimes tm
   \<and> (\<forall>other. other \<noteq> agentId \<longrightarrow>
         tickCounts (resetRound tm agentId) other = tickCounts tm other)
   \<and> (enabled cfg \<and> now - get_or_0 (lastTickTimes tm) agentId < num_or (intervalMs cfg) 1000
        \<longrightarrow> \<not> shouldExecute (resetRound tm agentId) now agentId cfg)
   \<and> (enabled cfg \<and> \<not> now - get_or_0 (lastTickTimes tm) agentId < num_or (intervalMs cfg) 1000
        \<and> (maxTicksPerRound cfg = None \<or> (\<exists>m. maxTicksPerRound cfg = Some m \<and> 0 < m))
        \<longrightarrow> shouldExecute (resetRound tm agentId) now agentId cfg)"
proof -
  have count: "get_or_0 (tickCounts (resetRound tm agentId)) agentId = 0"
    by (simp add: resetRound_def get_or_0_def)
  have times: "lastTickTimes (resetRound tm agentId) = lastTickTimes tm"
    by (simp add: resetRound_def)
  have others: "\<forall>other. other \<noteq> agentId \<longrightarrow>
                  tickCounts (resetRound tm agentId) other = tickCounts tm other"
    by (simp add: resetRound_def)
  have closed: "enabled cfg
      \<and> now - get_or_0 (lastTickTimes tm) agentId < num_or (intervalMs cfg) 1000
      \<longrightarrow> \<not> shouldExecute (resetRound tm agentId) now agentId cfg"
    by (simp add: shouldExecute_def times Let_def)
  have opened: "enabled cfg
      \<and> \<not> now - get_or_0 (lastTickTimes tm) agentId < num_or (intervalMs cfg) 1000
      \<and> (maxTicksPerRound cfg = None \<or> (\<exists>m. maxTicksPerRound cfg = Some m \<and> 0 < m))
      \<longrightarrow> shouldExecute (resetRound tm agentId) now agentId cfg"
    by (cases "maxTicksPerRound cfg") (auto simp: shouldExecute_def times count Let_def)
  from count times others closed opened show ?thesis
    by (simp add: getTickCount_def)
qed

theorem resetRound_frame_witness:
  "getTickCount (resetRound \<lparr> tickCounts = [''a'' \<mapsto> 10, ''b'' \<mapsto> 3],
                              lastTickTimes = [''a'' \<mapsto> 10000] \<rparr> ''a'') ''a'' = 0
   \<and> tickCounts (resetRound \<lparr> tickCounts = [''a'' \<mapsto> 10, ''b'' \<mapsto> 3],
                              lastTickTimes = [''a'' \<mapsto> 10000] \<rparr> ''a'') ''b'' = Some 3
   \<and> \<not> shouldExecute \<lparr> tickCounts = [''a'' \<mapsto> 10, ''b'' \<mapsto> 3],
                        lastTickTimes = [''a'' \<mapsto> 10000] \<rparr> 16000 ''a''
          \<lparr> enabled = True, intervalMs = Some 5000, intervalSeconds = None,
            intervalMinutes = None, maxTicksPerRound = Some 10 \<rparr>
   \<and> \<not> shouldExecute (resetRound \<lparr> tickCounts = [''a'' \<mapsto> 10, ''b'' \<mapsto> 3],
                                    lastTickTimes = [''a'' \<mapsto> 10000] \<rparr> ''a'') 10100 ''a''
          \<lparr> enabled = True, intervalMs = Some 5000, intervalSeconds = None,
            intervalMinutes = None, maxTicksPerRound = Some 10 \<rparr>
   \<and> shouldExecute (resetRound \<lparr> tickCounts = [''a'' \<mapsto> 10, ''b'' \<mapsto> 3],
                                  lastTickTimes = [''a'' \<mapsto> 10000] \<rparr> ''a'') 16000 ''a''
          \<lparr> enabled = True, intervalMs = Some 5000, intervalSeconds = None,
            intervalMinutes = None, maxTicksPerRound = Some 10 \<rparr>"
  using resetRound_frame
    [of "\<lparr> tickCounts = [''a'' \<mapsto> 10, ''b'' \<mapsto> 3], lastTickTimes = [''a'' \<mapsto> 10000] \<rparr>"
        "''a''"
        "\<lparr> enabled = True, intervalMs = Some 5000, intervalSeconds = None,
           intervalMinutes = None, maxTicksPerRound = Some 10 \<rparr>" 10100]
    resetRound_frame
    [of "\<lparr> tickCounts = [''a'' \<mapsto> 10, ''b'' \<mapsto> 3], lastTickTimes = [''a'' \<mapsto> 10000] \<rparr>"
        "''a''"
        "\<lparr> enabled = True, intervalMs = Some 5000, intervalSeconds = None,
           intervalMinutes = None, maxTicksPerRound = Some 10 \<rparr>" 16000]
  by (simp add: get_or_0_def shouldExecute_def resetRound_def getTickCount_def)

section \<open>Template resolver\<close>

lemma match_at_SomeD:
  assumes "match_at s = Some p"
  shows "s = ''{{'' @ fst p @ ''}}'' @ snd p \<and> fst p \<noteq> [] \<and> CHR ''}'' \<notin> set (fst p)"
proof -
  let ?P = "\<lambda>c. c \<noteq> CHR ''}''"
  let ?r = "drop 2 s"
  from assms have t: "take 2 s = ''{{''"
    by (simp add: match_at_def split: if_splits)
  from assms t have b: "fst p = takeWhile ?P ?r" and ne: "takeWhile ?P ?r \<noteq> []"
    and a: "take 2 (dropWhile ?P ?r) = ''}}''" and sp: "snd p = drop 2 (dropWhile ?P ?r)"
    by (auto simp: match_at_def Let_def split: if_splits)
  have "s = take 2 s @ ?r" by simp
  also have "?r = takeWhile ?P ?r @ dropWhile ?P ?r" by simp
  also have "dropWhile ?P ?r = take 2 (dropWhile ?P ?r) @ drop 2 (dropWhile ?P ?r)" by simp
  finally have "s = ''{{'' @ fst p @ ''}}'' @ snd p"
    using t b a sp by simp
  moreover have "CHR ''}'' \<notin> set (takeWhile ?P ?r)"
    by (auto dest: set_takeWhileD)
  ultimately show ?thesis using b ne by simp
qed

lemma find_markers_has_marker: "find_markers t \<noteq> [] \<Longrightarrow> has_marker t"
proof (induction t rule: find_markers.induct)
  case 1
  then show ?case by simp
next
  case (2 c cs)
  show ?case
  proof (cases "match_at (c # cs)")
    case None
    with 2 have "has_marker cs" by simp
    then obtain pre body post
      where "cs = pre @ ''{{'' @ body @ ''}}'' @ post" "body \<noteq> []" "CHR ''}'' \<notin> set body"
      unfolding has_marker_def by blast
    then have "c # cs = (c # pre) @ ''{{'' @ body @ ''}}'' @ post
               \<and> body \<noteq> [] \<and> CHR ''}'' \<notin> set body"
      by simp
    then show ?thesis unfolding has_marker_def by blast
  next
    case (Some p)
    from match_at_SomeD[OF Some]
    have "c # cs = [] @ ''{{'' @ fst p @ ''}}'' @ snd p
          \<and> fst p \<noteq> [] \<and> CHR ''}'' \<notin> set (fst p)"
      by simp
    then show ?thesis unfolding has_marker_def by blast
  qed
qed

lemma has_marker_brace: "has_marker t \<Longrightarrow> CHR ''{'' \<in> set t"
  unfolding has_marker_def by auto

text \<open>
  C7. A template without any \<open>{{...}}\<close> marker is returned unchanged, whatever the
  context: by \<open>TemplateResolver.resolve\<close> and by the command-line engine's
  \<open>resolveTemplateString\<close> alike.
\<close>

theorem resolve_without_marker:
  assumes "\<not> has_marker template"
  shows "resolve template context = Inr template
         \<and> resolveTemplateString stringify template workflowInputs previousResults = template"
proof -
  from assms have "find_markers template = []"
    using find_markers_has_marker by blast
  then show ?thesis
    by (simp add: resolve_def resolveTemplateString_def)
qed

theorem resolve_without_marker_witness:
  "\<not> has_marker ''plain text''
   \<and> resolve ''plain text'' history_ctx = Inr ''plain text''
   \<and> resolveTemplateString (\<lambda>v. []) ''plain text'' [] [history_result] = ''plain text''"
proof -
  have h: "\<not> has_marker ''plain text''"
    using has_marker_brace[of "''plain text''"] by auto
  show ?thesis
    using h resolve_without_marker[OF h, of history_ctx "\<lambda>v. []" "[]" "[history_result]"]
    by simp
qed

text \<open>
  C3. With \<open>history = ["x","y","z"]\<close> the template \<open>{{history[-1]}}\<close> should resolve to
  \<open>z\<close>. \<open>getNestedValue\<close> reads the array at the property \<open>-1\<close>, which no array has,
  so \<open>resolve\<close> fails with "Template variable not found"; the command-line engine
  leaves the marker in place. The last element is reached only by its index from the
  front.
\<close>

theorem resolve_negative_index:
  "resolve ''{{history[-1]}}'' history_ctx
     = Inl (Error ''Template variable not found: history[-1]'')
   \<and> getNestedValue history_ctx ''history[-1]'' = JUndefined
   \<and> resolveTemplateString stringify ''{{history[-1]}}'' [] [history_result]
     = ''{{history[-1]}}''
   \<and> resolve ''{{history[2]}}'' history_ctx = Inr ''z''"
  by (simp add: history_ctx_def history_result_def resolve_eval)

section \<open>Workflow validation\<close>

lemma validate_nodes_throws:
  "(\<exists>e. validate_nodes index seen ns = Inl e) \<longleftrightarrow> None \<in> set ns"
proof (induction ns arbitrary: index seen)
  case Nil
  show ?case by simp
next
  case (Cons n rest)
  show ?case
  proof (cases n)
    case None
    then show ?thesis by simp
  next
    case (Some node)
    from Cons.IH[of "Suc index" "add_id seen node"] Some show ?thesis
      by (auto split: sum.splits)
  qed
qed

lemma validate_edges_throws:
  "(\<exists>e. validate_edges index ids es = Inl e) \<longleftrightarrow> None \<in> set es"
proof (induction es arbitrary: index)
  case Nil
  show ?case by simp
next
  case (Cons x rest)
  show ?case
  proof (cases x)
    case None
    then show ?thesis by simp
  next
    case (Some edge)
    from Cons.IH[of "Suc index"] Some show ?thesis
      by (auto split: sum.splits)
  qed
qed

lemma map_reading_throws:
  "(\<exists>e. map_reading prop f xs = Inl e) \<longleftrightarrow> None \<in> set xs"
proof (induction xs)
  case Nil
  show ?case by simp
next
  case (Cons x rest)
  show ?case
  proof (cases x)
    case None
    then show ?thesis by simp
  next
    case (Some y)
    from Cons.IH Some show ?thesis by (auto split: sum.splits)
  qed
qed

lemma map_reading_ids:
  "map_reading prop node_id ns = Inr ids \<Longrightarrow>
   set ids = set (concat (map (\<lambda>n. case n of None \<Rightarrow> [] | Some node \<Rightarrow> [node_id node]) ns))"
proof (induction ns arbitrary: ids)
  case Nil
  then show ?case by simp
next
  case (Cons n rest)
  show ?case
  proof (cases n)
    case None
    with Cons.prems show ?thesis by simp
  next
    case (Some node)
    with Cons.prems obtain ys where ys: "map_reading prop node_id rest = Inr ys"
      and ids: "ids = node_id node # ys"
      by (auto split: sum.splits)
    from Cons.IH[OF ys] ids Some show ?thesis by simp
  qed
qed

lemma earlier_ids_0: "earlier_ids ns 0 = {}"
  by (simp add: earlier_ids_def)

lemma earlier_ids_Suc:
  "earlier_ids (Some node # rest) (Suc k) = insert (node_id node) (earlier_ids rest k)"
  by (simp add: earlier_ids_def)

text \<open>The set \<open>nodeIds\<close> when the loop reaches position \<open>k\<close>.\<close>

lemma seen_step:
  "add_id seen node \<union> {s. s \<noteq> [] \<and> Some s \<in> earlier_ids rest k}
   = seen \<union> {s. s \<noteq> [] \<and> Some s \<in> earlier_ids (Some node # rest) (Suc k)}"
  by (cases "node_id node") (auto simp: add_id_def earlier_ids_Suc)

lemma validate_nodes_entries:
  "validate_nodes index seen ns = Inr errs \<Longrightarrow> k < length ns \<Longrightarrow> ns ! k = Some node \<Longrightarrow>
   set (node_errors (index + k) (seen \<union> {s. s \<noteq> [] \<and> Some s \<in> earlier_ids ns k}) node)
     \<subseteq> set errs"
proof (induction ns arbitrary: index seen k errs)
  case Nil
  then show ?case by simp
next
  case (Cons n rest)
  from Cons.prems(1) obtain first later where n: "n = Some first"
    and later: "validate_nodes (Suc index) (add_id seen first) rest = Inr later"
    and errs: "errs = node_errors index seen first @ later"
    by (cases n) (auto split: sum.splits)
  show ?case
  proof (cases k)
    case 0
    with Cons.prems n errs show ?thesis by (simp add: earlier_ids_0)
  next
    case (Suc k')
    with Cons.prems have k': "k' < length rest" "rest ! k' = Some node" by simp_all
    from Cons.IH[OF later k'] seen_step[of seen first rest k'] n Suc errs
    show ?thesis by auto
  qed
qed

lemma validate_nodes_clean:
  "validate_nodes index seen ns = Inr errs \<Longrightarrow>
   (\<forall>k node. k < length ns \<and> ns ! k = Some node \<longrightarrow>
      node_errors (index + k) (seen \<union> {s. s \<noteq> [] \<and> Some s \<in> earlier_ids ns k}) node = [])
   \<Longrightarrow> errs = []"
proof (induction ns arbitrary: index seen errs)
  case Nil
  then show ?case by simp
next
  case (Cons n rest)
  from Cons.prems(1) obtain first later where n: "n = Some first"
    and later: "validate_nodes (Suc index) (add_id seen first) rest = Inr later"
    and errs: "errs = node_errors index seen first @ later"
    by (cases n) (auto split: sum.splits)
  from Cons.prems(2)[rule_format, of 0 first] n
  have here: "node_errors index seen first = []" by (simp add: earlier_ids_0)
  have "\<forall>k node. k < length rest \<and> rest ! k = Some node \<longrightarrow>
      node_errors (Suc index + k)
        (add_id seen first \<union> {s. s \<noteq> [] \<and> Some s \<in> earlier_ids rest k}) node = []"
  proof (intro allI impI)
    fix k node
    assume "k < length rest \<and> rest ! k = Some node"
    with Cons.prems(2)[rule_format, of "Suc k" node] n seen_step[of seen first rest k]
    show "node_errors (Suc index + k)
        (add_id seen first \<union> {s. s \<noteq> [] \<and> Some s \<in> earlier_ids rest k}) node = []"
      by simp
  qed
  from Cons.IH[OF later this] here errs show ?case by simp
qed

lemma validate_edges_entries:
  "validate_edges index ids es = Inr errs \<Longrightarrow> k < length es \<Longrightarrow> es ! k = Some edge \<Longrightarrow>
   set (edge_errors (index + k) ids edge) \<subseteq> set errs"
proof (induction es arbitrary: index k errs)
  case Nil
  then show ?case by simp
next
  case (Cons x rest)
  from Cons.prems(1) obtain first later where x: "x = Some first"
    and later: "validate_edges (Suc index) ids rest = Inr later"
    and errs: "errs = edge_errors index ids first @ later"
    by (cases x) (auto split: sum.splits)
  show ?case
  proof (cases k)
    case 0
    with Cons.prems x errs show ?thesis by simp
  next
    case (Suc k')
    with Cons.prems have k': "k' < length rest" "rest ! k' = Some edge" by simp_all
    from Cons.IH[OF later k'] Suc errs show ?thesis by auto
  qed
qed

lemma validate_edges_clean:
  "validate_edges index ids es = Inr errs \<Longrightarrow>
   (\<forall>k edge. k < length es \<and> es ! k = Some edge \<longrightarrow> edge_errors (index + k) ids edge = [])
   \<Longrightarrow> errs = []"
proof (induction es arbitrary: index errs)
  case Nil
  then show ?case by simp
next
  case (Cons x rest)
  from Cons.prems(1) obtain first later where x: "x = Some first"
    and later: "validate_edges (Suc index) ids rest = Inr later"
    and errs: "errs = edge_errors index ids first @ later"
    by (cases x) (auto split: sum.splits)
  from Cons.prems(2)[rule_format, of 0 first] x
  have here: "edge_errors index ids first = []" by simp
  have "\<forall>k edge. k < length rest \<and> rest ! k = Some edge \<longrightarrow>
      edge_errors (Suc index + k) ids edge = []"
  proof (intro allI impI)
    fix k edge
    assume "k < length rest \<and> rest ! k = Some edge"
    with Cons.prems(2)[rule_format, of "Suc k" edge]
    show "edge_errors (Suc index + k) ids edge = []" by simp
  qed
  from Cons.IH[OF later this] here errs show ?case by simp
qed

lemma validate_Inr:
  "validate parsed = Inr errs \<Longrightarrow>
   \<exists>errors4 errors5.
     errs = (if \<not> truthy_str (doc_name parsed)
             then [verr ''Workflow name is required'' None] else [])
          @ (if \<not> truthy_str (doc_version parsed)
             then [verr ''Workflow version is required'' None] else [])
          @ (if is_array (doc_nodes parsed) then []
             else [verr ''Workflow must have nodes array'' None])
          @ errors4 @ errors5
     \<and> (case doc_nodes parsed of
          Array ns \<Rightarrow> validate_nodes 0 {} ns = Inr errors4
        | _ \<Rightarrow> errors4 = [])
     \<and> (case doc_edges parsed of
          Array es \<Rightarrow>
            validate_edges 0 (insert (Some ''output'') (declared_ids parsed)) es = Inr errors5
        | _ \<Rightarrow> errors5 = [])"
proof (cases "doc_nodes parsed")
  case Falsy
  then show "validate parsed = Inr errs \<Longrightarrow> ?thesis"
    by (cases "doc_edges parsed")
       (auto simp: validate_def Let_def is_array_def declared_ids_def split: sum.splits)
next
  case NotArray
  then show "validate parsed = Inr errs \<Longrightarrow> ?thesis"
    by (cases "doc_edges parsed")
       (auto simp: validate_def Let_def is_array_def declared_ids_def split: sum.splits)
next
  case (Array ns)
  assume v: "validate parsed = Inr errs"
  show ?thesis
  proof (cases "doc_edges parsed")
    case Falsy
    with Array v show ?thesis
      by (auto simp: validate_def Let_def is_array_def split: sum.splits)
  next
    case NotArray
    with Array v show ?thesis
      by (auto simp: validate_def Let_def is_array_def split: sum.splits)
  next
    case es: (Array es)
    from v Array es obtain errors4 ids errors5 where
      n: "validate_nodes 0 {} ns = Inr errors4"
      and m: "map_reading ''id'' node_id ns = Inr ids"
      and e: "validate_edges 0 (insert (Some ''output'') (set ids)) es = Inr errors5"
      and errs: "errs = (if \<not> truthy_str (doc_name parsed)
             then [verr ''Workflow name is required'' None] else [])
          @ (if \<not> truthy_str (doc_version parsed)
             then [verr ''Workflow version is required'' None] else [])
          @ errors4 @ errors5"
      by (auto simp: validate_def Let_def split: sum.splits)
    from map_reading_ids[OF m] Array have "set ids = declared_ids parsed"
      by (simp add: declared_ids_def)
    with n e errs Array es show ?thesis by (simp add: is_array_def)
  qed
qed

lemma validate_throws_iff:
  "(\<exists>e. validate parsed = Inl e) \<longleftrightarrow> validate_throws parsed"
proof (cases "doc_nodes parsed")
  case Falsy
  show ?thesis
  proof (cases "doc_edges parsed")
    case (Array es)
    with Falsy validate_edges_throws[of 0 "{Some ''output''}" es] show ?thesis
      by (auto simp: validate_def Let_def validate_throws_def has_null_def is_array_def
               split: sum.splits)
  qed (use Falsy in \<open>auto simp: validate_def Let_def validate_throws_def has_null_def is_array_def\<close>)
next
  case NotArray
  then show ?thesis
    by (cases "doc_edges parsed")
       (auto simp: validate_def Let_def validate_throws_def has_null_def is_array_def)
next
  case (Array ns)
  show ?thesis
  proof (cases "None \<in> set ns")
    case True
    with validate_nodes_throws[of 0 "{}" ns] obtain e where "validate_nodes 0 {} ns = Inl e"
      by blast
    with Array True show ?thesis
      by (auto simp: validate_def Let_def validate_throws_def has_null_def)
  next
    case False
    with validate_nodes_throws[of 0 "{}" ns] obtain errors4 where
      n: "validate_nodes 0 {} ns = Inr errors4"
      by (cases "validate_nodes 0 {} ns") auto
    from False map_reading_throws[of "''id''" node_id ns] obtain ids where
      m: "map_reading ''id'' node_id ns = Inr ids"
      by (cases "map_reading ''id'' node_id ns") auto
    show ?thesis
    proof (cases "doc_edges parsed")
      case es: (Array es)
      with Array False n m validate_edges_throws[of 0 "insert (Some ''output'') (set ids)" es]
      show ?thesis
        by (auto simp: validate_def Let_def validate_throws_def has_null_def is_array_def
                 split: sum.splits)
    qed (use Array False n in
          \<open>auto simp: validate_def Let_def validate_throws_def has_null_def is_array_def\<close>)
  qed
qed

lemma toWorkflowDefinition_returns:
  "validate parsed = Inr [] \<Longrightarrow> doc_edges parsed \<noteq> NotArray
   \<Longrightarrow> \<exists>w. toWorkflowDefinition parsed = Inr w"
proof -
  assume v: "validate parsed = Inr []" and ne: "doc_edges parsed \<noteq> NotArray"
  from v have nt: "\<not> validate_throws parsed"
    using validate_throws_iff[of parsed] by auto
  from validate_Inr[OF v] have arr: "is_array (doc_nodes parsed)"
    by (auto split: if_splits)
  then obtain ns where ns: "doc_nodes parsed = Array ns"
    by (cases "doc_nodes parsed") (auto simp: is_array_def)
  with nt have "None \<notin> set ns" by (simp add: validate_throws_def has_null_def)
  with map_reading_throws[of "''id''" "\<lambda>node. node" ns] obtain nodes where
    nodes: "map_reading ''id'' (\<lambda>node. node) ns = Inr nodes"
    by (cases "map_reading ''id'' (\<lambda>node. node) ns") auto
  show ?thesis
  proof (cases "doc_edges parsed")
    case Falsy
    with ns nodes show ?thesis by (simp add: toWorkflowDefinition_def)
  next
    case NotArray
    with ne show ?thesis by simp
  next
    case (Array es)
    with nt ns have "None \<notin> set es"
      by (simp add: validate_throws_def has_null_def is_array_def)
    with map_reading_throws[of "''from''" "\<lambda>edge. edge" es] obtain edges where
      "map_reading ''from'' (\<lambda>edge. edge) es = Inr edges"
      by (cases "map_reading ''from'' (\<lambda>edge. edge) es") auto
    with Array ns nodes show ?thesis by (simp add: toWorkflowDefinition_def)
  qed
qed

lemma parse_doc_valid_iff:
  "validate parsed = Inr errs \<Longrightarrow>
   (valid (parse_doc parsed) \<longleftrightarrow> errs = [] \<and> doc_edges parsed \<noteq> NotArray)"
proof -
  assume v: "validate parsed = Inr errs"
  show ?thesis
  proof (cases "errs = []")
    case False
    with v show ?thesis by (simp add: parse_doc_def)
  next
    case True
    show ?thesis
    proof (cases "doc_edges parsed = NotArray")
      case na: True
      then have "\<exists>e. toWorkflowDefinition parsed = Inl e"
        by (auto simp: toWorkflowDefinition_def split: sum.splits field.splits)
      with v True na show ?thesis by (auto simp: parse_doc_def caught_def)
    next
      case False
      with toWorkflowDefinition_returns[of parsed] v True obtain w where
        "toWorkflowDefinition parsed = Inr w" by auto
      with v True False show ?thesis by (simp add: parse_doc_def)
    qed
  qed
qed

lemma parse_doc_valid_errors:
  "valid (parse_doc parsed) \<longleftrightarrow> errors (parse_doc parsed) = None"
  by (auto simp: parse_doc_def caught_def split: sum.splits)

text \<open>
  C4, as the code has it. The command-line parser's \<open>validate\<close> accumulates: whenever
  it returns, its list holds an entry for every defect it looks for, which are a missing
  name, a missing version, a \<open>nodes\<close> value that is not an array, a node without id, a
  node whose id repeats an earlier one, a node without ref, an edge without \<open>from\<close> or
  without \<open>to\<close>, and an edge endpoint that is present and names neither a declared node
  nor the reserved target \<open>output\<close>; and the list is empty when the document has none of
  these. It does not return but throws exactly when the nodes hold a \<open>null\<close> element, or
  when \<open>edges\<close> is an array that holds a \<open>null\<close> element or stands next to a \<open>nodes\<close>
  value that is truthy but not an array; \<open>parse\<close> then reports one syntax error.
  \<open>parse\<close> answers valid exactly when the list is empty and \<open>edges\<close> is an array or
  falsy, reports the list when it is not empty, and has no list of errors exactly when
  it answers valid.
\<close>

theorem validate_accumulates:
  "((\<exists>e. validate parsed = Inl e) \<longleftrightarrow> validate_throws parsed)
   \<and> (\<forall>errs. validate parsed = Inr errs \<longrightarrow>
         (\<not> truthy_str (doc_name parsed)
            \<longrightarrow> verr ''Workflow name is required'' None \<in> set errs)
       \<and> (\<not> truthy_str (doc_version parsed)
            \<longrightarrow> verr ''Workflow version is required'' None \<in> set errs)
       \<and> (\<not> is_array (doc_nodes parsed)
            \<longrightarrow> verr ''Workflow must have nodes array'' None \<in> set errs)
       \<and> (\<forall>ns i node. doc_nodes parsed = Array ns \<and> i < length ns \<and> ns ! i = Some node \<longrightarrow>
             (\<not> truthy_str (node_id node)
                \<longrightarrow> verr (''Node at index '' @ show_nat i @ '' missing id'')
                          (Some (''nodes['' @ show_nat i @ '']'')) \<in> set errs)
           \<and> (truthy_str (node_id node) \<and> node_id node \<in> earlier_ids ns i
                \<longrightarrow> verr (''Duplicate node ID: '' @ the (node_id node))
                          (Some (''nodes['' @ show_nat i @ ''].id'')) \<in> set errs)
           \<and> (\<not> truthy_str (node_ref node)
                \<longrightarrow> verr (''Node '' @ (if truthy_str (node_id node) then the (node_id node)
                                       else show_nat i)
                            @ '' missing ref (agent reference)'')
                          (Some (''nodes['' @ show_nat i @ '']'')) \<in> set errs))
       \<and> (\<forall>es i edge. doc_edges parsed = Array es \<and> i < length es \<and> es ! i = Some edge \<longrightarrow>
             (\<not> truthy_str (edge_from edge)
                \<longrightarrow> verr (''Edge at index '' @ show_nat i @ '' missing 'from' field'')
                          (Some (''edges['' @ show_nat i @ '']'')) \<in> set errs)
           \<and> (\<not> truthy_str (edge_to edge)
                \<longrightarrow> verr (''Edge at index '' @ show_nat i @ '' missing 'to' field'')
                          (Some (''edges['' @ show_nat i @ '']'')) \<in> set errs)
           \<and> (truthy_str (edge_from edge) \<and> \<not> known_endpoint parsed (edge_from edge)
                \<longrightarrow> verr (''Edge references non-existent node: '' @ the (edge_from edge))
                          (Some (''edges['' @ show_nat i @ ''].from'')) \<in> set errs)
           \<and> (truthy_str (edge_to edge) \<and> \<not> known_endpoint parsed (edge_to edge)
                \<longrightarrow> verr (''Edge references non-existent node: '' @ the (edge_to edge))
                          (Some (''edges['' @ show_nat i @ ''].to'')) \<in> set errs))
       \<and> (truthy_str (doc_name parsed) \<and> truthy_str (doc_version parsed)
            \<and> is_array (doc_nodes parsed)
            \<and> (\<forall>ns i node. doc_nodes parsed = Array ns \<and> i < length ns \<and> ns ! i = Some node \<longrightarrow>
                  truthy_str (node_id node) \<and> node_id node \<notin> earlier_ids ns i
                  \<and> truthy_str (node_ref node))
            \<and> (\<forall>es i edge. doc_edges parsed = Array es \<and> i < length es \<and> es ! i = Some edge \<longrightarrow>
                  truthy_str (edge_from edge) \<and> known_endpoint parsed (edge_from edge)
                  \<and> truthy_str (edge_to edge) \<and> known_endpoint parsed (edge_to edge))
            \<longrightarrow> errs = [])
       \<and> (valid (parse_doc parsed) \<longleftrightarrow> errs = [] \<and> doc_edges parsed \<noteq> NotArray)
       \<and> (errs \<noteq> [] \<longrightarrow> errors (parse_doc parsed) = Some errs))
   \<and> (valid (parse_doc parsed) \<longleftrightarrow> errors (parse_doc parsed) = None)
   \<and> (\<forall>e. validate parsed = Inl e \<longrightarrow>
         parse_doc parsed =
           \<lparr> valid = False, workflow = None,
             errors = Some [\<lparr> err_type = SyntaxErr, err_message = error_message e,
                              err_line = None, err_path = None \<rparr>] \<rparr>)"
proof -
  have acc: "\<forall>errs. validate parsed = Inr errs \<longrightarrow>
         (\<not> truthy_str (doc_name parsed)
            \<longrightarrow> verr ''Workflow name is required'' None \<in> set errs)
       \<and> (\<not> truthy_str (doc_version parsed)
            \<longrightarrow> verr ''Workflow version is required'' None \<in> set errs)
       \<and> (\<not> is_array (doc_nodes parsed)
            \<longrightarrow> verr ''Workflow must have nodes array'' None \<in> set errs)
       \<and> (\<forall>ns i node. doc_nodes parsed = Array ns \<and> i < length ns \<and> ns ! i = Some node \<longrightarrow>
             (\<not> truthy_str (node_id node)
                \<longrightarrow> verr (''Node at index '' @ show_nat i @ '' missing id'')
                          (Some (''nodes['' @ show_nat i @ '']'')) \<in> set errs)
           \<and> (truthy_str (node_id node) \<and> node_id node \<in> earlier_ids ns i
                \<longrightarrow> verr (''Duplicate node ID: '' @ the (node_id node))
                          (Some (''nodes['' @ show_nat i @ ''].id'')) \<in> set errs)
           \<and> (\<not> truthy_str (node_ref node)
                \<longrightarrow> verr (''Node '' @ (if truthy_str (node_id node) then the (node_id node)
                                       else show_nat i)
                            @ '' missing ref (agent reference)'')
                          (Some (''nodes['' @ show_nat i @ '']'')) \<in> set errs))
       \<and> (\<forall>es i edge. doc_edges parsed = Array es \<and> i < length es \<and> es ! i = Some edge \<longrightarrow>
             (\<not> truthy_str (edge_from edge)
                \<longrightarrow> verr (''Edge at index '' @ show_nat i @ '' missing 'from' field'')
                          (Some (''edges['' @ show_nat i @ '']'')) \<in> set errs)
           \<and> (\<not> truthy_str (edge_to edge)
                \<longrightarrow> verr (''Edge at index '' @ show_nat i @ '' missing 'to' field'')
                          (Some (''edges['' @ show_nat i @ '']'')) \<in> set errs)
           \<and> (truthy_str (edge_from edge) \<and> \<not> known_endpoint parsed (edge_from edge)
                \<longrightarrow> verr (''Edge references non-existent node: '' @ the (edge_from edge))
                          (Some (''edges['' @ show_nat i @ ''].from'')) \<in> set errs)
           \<and> (truthy_str (edge_to edge) \<and> \<not> known_endpoint parsed (edge_to edge)
                \<longrightarrow> verr (''Edge references non-existent node: '' @ the (edge_to edge))
                          (Some (''edges['' @ show_nat i @ ''].to'')) \<in> set errs))
       \<and> (truthy_str (doc_name parsed) \<and> truthy_str (doc_version parsed)
            \<and> is_array (doc_nodes parsed)
            \<and> (\<forall>ns i node. doc_nodes parsed = Array ns \<and> i < length ns \<and> ns ! i = Some node \<longrightarrow>
                  truthy_str (node_id node) \<and> node_id node \<notin> earlier_ids ns i
                  \<and> truthy_str (node_ref node))
            \<and> (\<forall>es i edge. doc_edges parsed = Array es \<and> i < length es \<and> es ! i = Some edge \<longrightarrow>
                  truthy_str (edge_from edge) \<and> known_endpoint parsed (edge_from edge)
                  \<and> truthy_str (edge_to edge) \<and> known_endpoint parsed (edge_to edge))
            \<longrightarrow> errs = [])
       \<and> (valid (parse_doc parsed) \<longleftrightarrow> errs = [] \<and> doc_edges parsed \<noteq> NotArray)
       \<and> (errs \<noteq> [] \<longrightarrow> errors (parse_doc parsed) = Some errs)"
  proof (intro allI impI)
    fix errs
    assume v: "validate parsed = Inr errs"
    let ?ids = "insert (Some ''output'') (declared_ids parsed)"
    from validate_Inr[OF v] obtain errors4 errors5 where
      errs: "errs = (if \<not> truthy_str (doc_name parsed)
             then [verr ''Workflow name is required'' None] else [])
          @ (if \<not> truthy_str (doc_version parsed)
             then [verr ''Workflow version is required'' None] else [])
          @ (if is_array (doc_nodes parsed) then []
             else [verr ''Workflow must have nodes array'' None])
          @ errors4 @ errors5"
      and n: "case doc_nodes parsed of
                Array ns \<Rightarrow> validate_nodes 0 {} ns = Inr errors4
              | _ \<Rightarrow> errors4 = []"
      and e: "case doc_edges parsed of
                Array es \<Rightarrow> validate_edges 0 ?ids es = Inr errors5
              | _ \<Rightarrow> errors5 = []"
      by blast
    from errs have sub4: "set errors4 \<subseteq> set errs" and sub5: "set errors5 \<subseteq> set errs"
      by auto
    have name: "\<not> truthy_str (doc_name parsed)
        \<longrightarrow> verr ''Workflow name is required'' None \<in> set errs"
      using errs by simp
    have version: "\<not> truthy_str (doc_version parsed)
        \<longrightarrow> verr ''Workflow version is required'' None \<in> set errs"
      using errs by simp
    have array: "\<not> is_array (doc_nodes parsed)
        \<longrightarrow> verr ''Workflow must have nodes array'' None \<in> set errs"
      using errs by simp
    have nodes: "\<forall>ns i node. doc_nodes parsed = Array ns \<and> i < length ns \<and> ns ! i = Some node \<longrightarrow>
             (\<not> truthy_str (node_id node)
                \<longrightarrow> verr (''Node at index '' @ show_nat i @ '' missing id'')
                          (Some (''nodes['' @ show_nat i @ '']'')) \<in> set errs)
           \<and> (truthy_str (node_id node) \<and> node_id node \<in> earlier_ids ns i
                \<longrightarrow> verr (''Duplicate node ID: '' @ the (node_id node))
                          (Some (''nodes['' @ show_nat i @ ''].id'')) \<in> set errs)
           \<and> (\<not> truthy_str (node_ref node)
                \<longrightarrow> verr (''Node '' @ (if truthy_str (node_id node) then the (node_id node)
                                       else show_nat i)
                            @ '' missing ref (agent reference)'')
                          (Some (''nodes['' @ show_nat i @ '']'')) \<in> set errs)"
    proof (intro allI impI)
      fix ns i node
      assume a: "doc_nodes parsed = Array ns \<and> i < length ns \<and> ns ! i = Some node"
      with n have vn: "validate_nodes 0 {} ns = Inr errors4" by simp
      let ?seen = "{s. s \<noteq> [] \<and> Some s \<in> earlier_ids ns i}"
      from validate_nodes_entries[OF vn, of i node] a sub4
      have sub: "set (node_errors i ?seen node) \<subseteq> set errs" by simp
      have seen: "the (node_id node) \<in> ?seen"
        if "truthy_str (node_id node)" "node_id node \<in> earlier_ids ns i"
        using that by (cases "node_id node") auto
      have noid: "\<not> truthy_str (node_id node)
                \<longrightarrow> verr (''Node at index '' @ show_nat i @ '' missing id'')
                          (Some (''nodes['' @ show_nat i @ '']'')) \<in> set errs"
        using sub by (auto simp: node_errors_def)
      have dup: "truthy_str (node_id node) \<and> node_id node \<in> earlier_ids ns i
                \<longrightarrow> verr (''Duplicate node ID: '' @ the (node_id node))
                          (Some (''nodes['' @ show_nat i @ ''].id'')) \<in> set errs"
      proof
        assume d: "truthy_str (node_id node) \<and> node_id node \<in> earlier_ids ns i"
        with seen have "the (node_id node) \<in> ?seen" by blast
        with d have "verr (''Duplicate node ID: '' @ the (node_id node))
                          (Some (''nodes['' @ show_nat i @ ''].id''))
                     \<in> set (node_errors i ?seen node)"
          by (simp add: node_errors_def)
        with sub show "verr (''Duplicate node ID: '' @ the (node_id node))
                          (Some (''nodes['' @ show_nat i @ ''].id'')) \<in> set errs"
          by blast
      qed
      have noref: "\<not> truthy_str (node_ref node)
                \<longrightarrow> verr (''Node '' @ (if truthy_str (node_id node) then the (node_id node)
                                       else show_nat i)
                            @ '' missing ref (agent reference)'')
                          (Some (''nodes['' @ show_nat i @ '']'')) \<in> set errs"
      proof
        assume "\<not> truthy_str (node_ref node)"
        then have "verr (''Node '' @ (if truthy_str (node_id node) then the (node_id node)
                                       else show_nat i)
                            @ '' missing ref (agent reference)'')
                          (Some (''nodes['' @ show_nat i @ '']''))
                   \<in> set (node_errors i ?seen node)"
          by (simp add: node_errors_def)
        with sub show "verr (''Node '' @ (if truthy_str (node_id node) then the (node_id node)
                                       else show_nat i)
                            @ '' missing ref (agent reference)'')
                          (Some (''nodes['' @ show_nat i @ '']'')) \<in> set errs"
          by blast
      qed
      from noid dup noref show
        "(\<not> truthy_str (node_id node)
                \<longrightarrow> verr (''Node at index '' @ show_nat i @ '' missing id'')
                          (Some (''nodes['' @ show_nat i @ '']'')) \<in> set errs)
           \<and> (truthy_str (node_id node) \<and> node_id node \<in> earlier_ids ns i
                \<longrightarrow> verr (''Duplicate node ID: '' @ the (node_id node))
                          (Some (''nodes['' @ show_nat i @ ''].id'')) \<in> set errs)
           \<and> (\<not> truthy_str (node_ref node)
                \<longrightarrow> verr (''Node '' @ (if truthy_str (node_id node) then the (node_id node)
                                       else show_nat i)
                            @ '' missing ref (agent reference)'')
                          (Some (''nodes['' @ show_nat i @ '']'')) \<in> set errs)"
        by blast
    qed
    have edges: "\<forall>es i edge. doc_edges parsed = Array es \<and> i < length es \<and> es ! i = Some edge \<longrightarrow>
             (\<not> truthy_str (edge_from edge)
                \<longrightarrow> verr (''Edge at index '' @ show_nat i @ '' missing 'from' field'')
                          (Some (''edges['' @ show_nat i @ '']'')) \<in> set errs)
           \<and> (\<not> truthy_str (edge_to edge)
                \<longrightarrow> verr (''Edge at index '' @ show_nat i @ '' missing 'to' field'')
                          (Some (''edges['' @ show_nat i @ '']'')) \<in> set errs)
           \<and> (truthy_str (edge_from edge) \<and> \<not> known_endpoint parsed (edge_from edge)
                \<longrightarrow> verr (''Edge references non-existent node: '' @ the (edge_from edge))
                          (Some (''edges['' @ show_nat i @ ''].from'')) \<in> set errs)
           \<and> (truthy_str (edge_to edge) \<and> \<not> known_endpoint parsed (edge_to edge)
                \<longrightarrow> verr (''Edge references non-existent node: '' @ the (edge_to edge))
                          (Some (''edges['' @ show_nat i @ ''].to'')) \<in> set errs)"
    proof (intro allI impI)
      fix es i edge
      assume a: "doc_edges parsed = Array es \<and> i < length es \<and> es ! i = Some edge"
      with e have ve: "validate_edges 0 ?ids es = Inr errors5" by simp
      from validate_edges_entries[OF ve, of i edge] a sub5
      have sub: "set (edge_errors i ?ids edge) \<subseteq> set errs" by simp
      have nofrom: "\<not> truthy_str (edge_from edge)
                \<longrightarrow> verr (''Edge at index '' @ show_nat i @ '' missing 'from' field'')
                          (Some (''edges['' @ show_nat i @ '']'')) \<in> set errs"
        using sub by (auto simp: edge_errors_def)
      have noto: "\<not> truthy_str (edge_to edge)
                \<longrightarrow> verr (''Edge at index '' @ show_nat i @ '' missing 'to' field'')
                          (Some (''edges['' @ show_nat i @ '']'')) \<in> set errs"
        using sub by (auto simp: edge_errors_def)
      have badfrom: "truthy_str (edge_from edge) \<and> \<not> known_endpoint parsed (edge_from edge)
                \<longrightarrow> verr (''Edge references non-existent node: '' @ the (edge_from edge))
                          (Some (''edges['' @ show_nat i @ ''].from'')) \<in> set errs"
        using sub by (auto simp: edge_errors_def known_endpoint_def)
      have badto: "truthy_str (edge_to edge) \<and> \<not> known_endpoint parsed (edge_to edge)
                \<longrightarrow> verr (''Edge references non-existent node: '' @ the (edge_to edge))
                          (Some (''edges['' @ show_nat i @ ''].to'')) \<in> set errs"
        using sub by (auto simp: edge_errors_def known_endpoint_def)
      from nofrom noto badfrom badto show
        "(\<not> truthy_str (edge_from edge)
                \<longrightarrow> verr (''Edge at index '' @ show_nat i @ '' missing 'from' field'')
                          (Some (''edges['' @ show_nat i @ '']'')) \<in> set errs)
           \<and> (\<not> truthy_str (edge_to edge)
                \<longrightarrow> verr (''Edge at index '' @ show_nat i @ '' missing 'to' field'')
                          (Some (''edges['' @ show_nat i @ '']'')) \<in> set errs)
           \<and> (truthy_str (edge_from edge) \<and> \<not> known_endpoint parsed (edge_from edge)
                \<longrightarrow> verr (''Edge references non-existent node: '' @ the (edge_from edge))
                          (Some (''edges['' @ show_nat i @ ''].from'')) \<in> set errs)
           \<and> (truthy_str (edge_to edge) \<and> \<not> known_endpoint parsed (edge_to edge)
                \<longrightarrow> verr (''Edge references non-existent node: '' @ the (edge_to edge))
                          (Some (''edges['' @ show_nat i @ ''].to'')) \<in> set errs)"
        by blast
    qed
    have clean: "truthy_str (doc_name parsed) \<and> truthy_str (doc_version parsed)
            \<and> is_array (doc_nodes parsed)
            \<and> (\<forall>ns i node. doc_nodes parsed = Array ns \<and> i < length ns \<and> ns ! i = Some node \<longrightarrow>
                  truthy_str (node_id node) \<and> node_id node \<notin> earlier_ids ns i
                  \<and> truthy_str (node_ref node))
            \<and> (\<forall>es i edge. doc_edges parsed = Array es \<and> i < length es \<and> es ! i = Some edge \<longrightarrow>
                  truthy_str (edge_from edge) \<and> known_endpoint parsed (edge_from edge)
                  \<and> truthy_str (edge_to edge) \<and> known_endpoint parsed (edge_to edge))
            \<longrightarrow> errs = []"
    proof
      assume c: "truthy_str (doc_name parsed) \<and> truthy_str (doc_version parsed)
            \<and> is_array (doc_nodes parsed)
            \<and> (\<forall>ns i node. doc_nodes parsed = Array ns \<and> i < length ns \<and> ns ! i = Some node \<longrightarrow>
                  truthy_str (node_id node) \<and> node_id node \<notin> earlier_ids ns i
                  \<and> truthy_str (node_ref node))
            \<and> (\<forall>es i edge. doc_edges parsed = Array es \<and> i < length es \<and> es ! i = Some edge \<longrightarrow>
                  truthy_str (edge_from edge) \<and> known_endpoint parsed (edge_from edge)
                  \<and> truthy_str (edge_to edge) \<and> known_endpoint parsed (edge_to edge))"
      then obtain ns where ns: "doc_nodes parsed = Array ns"
        by (cases "doc_nodes parsed") (auto simp: is_array_def)
      with n have vn: "validate_nodes 0 {} ns = Inr errors4" by simp
      have "\<forall>k node. k < length ns \<and> ns ! k = Some node \<longrightarrow>
              node_errors (0 + k) ({} \<union> {s. s \<noteq> [] \<and> Some s \<in> earlier_ids ns k}) node = []"
      proof (intro allI impI)
        fix k node
        assume "k < length ns \<and> ns ! k = Some node"
        with c ns have "truthy_str (node_id node) \<and> node_id node \<notin> earlier_ids ns k
                  \<and> truthy_str (node_ref node)" by blast
        then show "node_errors (0 + k) ({} \<union> {s. s \<noteq> [] \<and> Some s \<in> earlier_ids ns k}) node = []"
          by (cases "node_id node") (auto simp: node_errors_def)
      qed
      from validate_nodes_clean[OF vn this] have e4: "errors4 = []" .
      have e5: "errors5 = []"
      proof (cases "doc_edges parsed")
        case Falsy
        with e show ?thesis by simp
      next
        case NotArray
        with e show ?thesis by simp
      next
        case (Array es)
        with e have ve: "validate_edges 0 ?ids es = Inr errors5" by simp
        have "\<forall>k edge. k < length es \<and> es ! k = Some edge \<longrightarrow>
                edge_errors (0 + k) ?ids edge = []"
        proof (intro allI impI)
          fix k edge
          assume "k < length es \<and> es ! k = Some edge"
          with c Array have "truthy_str (edge_from edge) \<and> known_endpoint parsed (edge_from edge)
                  \<and> truthy_str (edge_to edge) \<and> known_endpoint parsed (edge_to edge)" by blast
          then show "edge_errors (0 + k) ?ids edge = []"
            by (auto simp: edge_errors_def known_endpoint_def)
        qed
        from validate_edges_clean[OF ve this] show ?thesis .
      qed
      from c errs e4 e5 show "errs = []" by simp
    qed
    have pv: "valid (parse_doc parsed) \<longleftrightarrow> errs = [] \<and> doc_edges parsed \<noteq> NotArray"
      by (rule parse_doc_valid_iff[OF v])
    have pe: "errs \<noteq> [] \<longrightarrow> errors (parse_doc parsed) = Some errs"
      using v by (simp add: parse_doc_def)
    from name version array nodes edges clean pv pe show
      "(\<not> truthy_str (doc_name parsed)
            \<longrightarrow> verr ''Workflow name is required'' None \<in> set errs)
       \<and> (\<not> truthy_str (doc_version parsed)
            \<longrightarrow> verr ''Workflow version is required'' None \<in> set errs)
       \<and> (\<not> is_array (doc_nodes parsed)
            \<longrightarrow> verr ''Workflow must have nodes array'' None \<in> set errs)
       \<and> (\<forall>ns i node. doc_nodes parsed = Array ns \<and> i < length ns \<and> ns ! i = Some node \<longrightarrow>
             (\<not> truthy_str (node_id node)
                \<longrightarrow> verr (''Node at index '' @ show_nat i @ '' missing id'')
                          (Some (''nodes['' @ show_nat i @ '']'')) \<in> set errs)
           \<and> (truthy_str (node_id node) \<and> node_id node \<in> earlier_ids ns i
                \<longrightarrow> verr (''Duplicate node ID: '' @ the (node_id node))
                          (Some (''nodes['' @ show_nat i @ ''].id'')) \<in> set errs)
           \<and> (\<not> truthy_str (node_ref node)
                \<longrightarrow> verr (''Node '' @ (if truthy_str (node_id node) then the (node_id node)
                                       else show_nat i)
                            @ '' missing ref (agent reference)'')
                          (Some (''nodes['' @ show_nat i @ '']'')) \<in> set errs))
       \<and> (\<forall>es i edge. doc_edges parsed = Array es \<and> i < length es \<and> es ! i = Some edge \<longrightarrow>
             (\<not> truthy_str (edge_from edge)
                \<longrightarrow> verr (''Edge at index '' @ show_nat i @ '' missing 'from' field'')
                          (Some (''edges['' @ show_nat i @ '']'')) \<in> set errs)
           \<and> (\<not> truthy_str (edge_to edge)
                \<longrightarrow> verr (''Edge at index '' @ show_nat i @ '' missing 'to' field'')
                          (Some (''edges['' @ show_nat i @ '']'')) \<in> set errs)
           \<and> (truthy_str (edge_from edge) \<and> \<not> known_endpoint parsed (edge_from edge)
                \<longrightarrow> verr (''Edge references non-existent node: '' @ the (edge_from edge))
                          (Some (''edges['' @ show_nat i @ ''].from'')) \<in> set errs)
           \<and> (truthy_str (edge_to edge) \<and> \<not> known_endpoint parsed (edge_to edge)
                \<longrightarrow> verr (''Edge references non-existent node: '' @ the (edge_to edge))
                          (Some (''edges['' @ show_nat i @ ''].to'')) \<in> set errs))
       \<and> (truthy_str (doc_name parsed) \<and> truthy_str (doc_version parsed)
            \<and> is_array (doc_nodes parsed)
            \<and> (\<forall>ns i node. doc_nodes parsed = Array ns \<and> i < length ns \<and> ns ! i = Some node \<longrightarrow>
                  truthy_str (node_id node) \<and> node_id node \<notin> earlier_ids ns i
                  \<and> truthy_str (node_ref node))
            \<and> (\<forall>es i edge. doc_edges parsed = Array es \<and> i < length es \<and> es ! i = Some edge \<longrightarrow>
                  truthy_str (edge_from edge) \<and> known_endpoint parsed (edge_from edge)
                  \<and> truthy_str (edge_to edge) \<and> known_endpoint parsed (edge_to edge))
            \<longrightarrow> errs = [])
       \<and> (valid (parse_doc parsed) \<longleftrightarrow> errs = [] \<and> doc_edges parsed \<noteq> NotArray)
       \<and> (errs \<noteq> [] \<longrightarrow> errors (parse_doc parsed) = Some errs)"
      by (intro conjI)
  qed
  have thrown: "\<forall>e. validate parsed = Inl e \<longrightarrow>
         parse_doc parsed =
           \<lparr> valid = False, workflow = None,
             errors = Some [\<lparr> err_type = SyntaxErr, err_message = error_message e,
                              err_line = None, err_path = None \<rparr>] \<rparr>"
    by (simp add: parse_doc_def caught_def)
  from validate_throws_iff[of parsed] acc parse_doc_valid_errors[of parsed] thrown
  show ?thesis by (intro conjI)
qed

theorem validate_accumulates_witness:
  "\<not> validate_throws two_defects_doc
   \<and> validate two_defects_doc =
       Inr [verr ''Duplicate node ID: a'' (Some ''nodes[1].id''),
            verr ''Edge references non-existent node: ghost'' (Some ''edges[0].to'')]
   \<and> \<not> valid (parse_doc two_defects_doc)
   \<and> errors (parse_doc two_defects_doc) =
       Some [verr ''Duplicate node ID: a'' (Some ''nodes[1].id''),
             verr ''Edge references non-existent node: ghost'' (Some ''edges[0].to'')]
   \<and> validate all_defects_doc =
       Inr [verr ''Workflow name is required'' None,
            verr ''Workflow version is required'' None,
            verr ''Node at index 1 missing id'' (Some ''nodes[1]''),
            verr ''Node 1 missing ref (agent reference)'' (Some ''nodes[1]''),
            verr ''Duplicate node ID: a'' (Some ''nodes[2].id''),
            verr ''Node a missing ref (agent reference)'' (Some ''nodes[2]''),
            verr ''Edge at index 0 missing 'from' field'' (Some ''edges[0]''),
            verr ''Edge references non-existent node: ghost'' (Some ''edges[0].to''),
            verr ''Edge at index 1 missing 'to' field'' (Some ''edges[1]''),
            verr ''Edge references non-existent node: phantom'' (Some ''edges[1].from'')]
   \<and> \<not> valid (parse_doc all_defects_doc)
   \<and> validate output_edge_doc = Inr []
   \<and> valid (parse_doc output_edge_doc)"
proof -
  let ?two = "[verr ''Duplicate node ID: a'' (Some ''nodes[1].id''),
               verr ''Edge references non-existent node: ghost'' (Some ''edges[0].to'')]"
  have two: "validate two_defects_doc = Inr ?two"
    by (simp add: two_defects_doc_def validate_def node_errors_def edge_errors_def add_id_def
          show_nat.simps digit_char_def)
  have all: "validate all_defects_doc =
       Inr [verr ''Workflow name is required'' None,
            verr ''Workflow version is required'' None,
            verr ''Node at index 1 missing id'' (Some ''nodes[1]''),
            verr ''Node 1 missing ref (agent reference)'' (Some ''nodes[1]''),
            verr ''Duplicate node ID: a'' (Some ''nodes[2].id''),
            verr ''Node a missing ref (agent reference)'' (Some ''nodes[2]''),
            verr ''Edge at index 0 missing 'from' field'' (Some ''edges[0]''),
            verr ''Edge references non-existent node: ghost'' (Some ''edges[0].to''),
            verr ''Edge at index 1 missing 'to' field'' (Some ''edges[1]''),
            verr ''Edge references non-existent node: phantom'' (Some ''edges[1].from'')]"
    by (simp add: all_defects_doc_def validate_def node_errors_def edge_errors_def add_id_def
          show_nat.simps digit_char_def)
  have out: "validate output_edge_doc = Inr []"
    by (simp add: output_edge_doc_def validate_def node_errors_def edge_errors_def add_id_def)
  have oe: "doc_edges output_edge_doc \<noteq> NotArray"
    by (simp add: output_edge_doc_def)
  from validate_accumulates[of two_defects_doc, THEN conjunct1] two
  have t1: "\<not> validate_throws two_defects_doc" by auto
  from validate_accumulates[of two_defects_doc, THEN conjunct2, THEN conjunct1, rule_format, OF two]
  have t2: "\<not> valid (parse_doc two_defects_doc)"
    and t3: "errors (parse_doc two_defects_doc) = Some ?two"
    by simp_all
  from validate_accumulates[of all_defects_doc, THEN conjunct2, THEN conjunct1, rule_format, OF all]
  have a1: "\<not> valid (parse_doc all_defects_doc)" by simp
  from validate_accumulates[of output_edge_doc, THEN conjunct2, THEN conjunct1, rule_format, OF out]
    oe
  have o1: "valid (parse_doc output_edge_doc)" by simp
  from t1 two t2 t3 all a1 out o1 show ?thesis by (intro conjI)
qed

text \<open>
  C4, as stated, fails on the engine's \<open>validateYAML\<close>, which throws at the first
  defect and has no check of duplicate ids: of a duplicated id and two dangling edges
  only the first dangling endpoint is reported, and the duplicate alone passes. It fails
  on the command-line \<open>validate\<close> where an element of \<open>nodes\<close> is \<open>null\<close>: the call
  throws, and of a \<open>null\<close> node, a duplicated id and a dangling edge \<open>parse\<close> reports
  one syntax error that names none of them. And the command-line \<open>validate\<close> accepts an
  edge to \<open>output\<close> although no node declares that id.
\<close>

theorem validateYAML_stops_at_first_defect:
  "validateYAML two_defects_yaml
     = Inl (WorkflowValidationError ''Edge references non-existent node: ghost'')
   \<and> validateYAML (two_defects_yaml \<lparr> yaml_edges := None \<rparr>) = Inr ()
   \<and> validate null_node_doc = Inl (null_read ''id'')
   \<and> parse_doc null_node_doc =
       \<lparr> valid = False, workflow = None,
         errors = Some [\<lparr> err_type = SyntaxErr,
                          err_message = error_message (null_read ''id''),
                          err_line = None, err_path = None \<rparr>] \<rparr>
   \<and> validate output_edge_doc = Inr []
   \<and> valid (parse_doc output_edge_doc)
   \<and> Some ''output'' \<notin> declared_ids output_edge_doc"
  by (simp add: two_defects_yaml_def output_edge_doc_def null_node_doc_def validateYAML_def
        node_exists_def validate_def parse_doc_def toWorkflowDefinition_def caught_def
        node_errors_def edge_errors_def add_id_def declared_ids_def)

section \<open>Cycle detection\<close>

lemma dfs_Suc_cases:
  assumes "dfs (Suc n) nodes x p s = Some (b, s')"
  obtains (dangling) "find_node nodes x = None" "b = False" "s' = enter x s"
    | (found_cycle) node where "find_node nodes x = Some node"
        "dfs_deps n nodes p (dependencies node) (enter x s) = Some (True, s')" "b = True"
    | (finished) node s2 where "find_node nodes x = Some node"
        "dfs_deps n nodes p (dependencies node) (enter x s) = Some (False, s2)" "b = False"
        "s' = s2\<lparr> recursionStack := recursionStack s2 - {x} \<rparr>"
  using assms
  by (auto simp: enter_def Let_def split: option.splits if_splits)

lemma dfs_deps_Cons_cases:
  assumes "dfs_deps n nodes p (d # rest) s = Some (b, s')"
  obtains (descend_cycle) "d \<notin> visited s" "dfs n nodes d (p @ [d]) s = Some (True, s')" "b = True"
    | (descend) s1 where "d \<notin> visited s" "dfs n nodes d (p @ [d]) s = Some (False, s1)"
        "dfs_deps n nodes p rest s1 = Some (b, s')"
    | (back_edge) "d \<in> visited s" "d \<in> recursionStack s" "b = True"
        "s' = s\<lparr> cycle_errors := cycle_errors s @
                 [''Circular dependency detected: '' @ join arrow (p @ [d])] \<rparr>"
    | (skip) "d \<in> visited s" "d \<notin> recursionStack s" "dfs_deps n nodes p rest s = Some (b, s')"
  using assms
  by (auto split: option.splits if_splits)

lemma dfs_mono:
  "dfs n nodes x p s = Some (b, t) \<Longrightarrow>
      visited s \<subseteq> visited t \<and> x \<in> visited t
      \<and> (\<exists>ys. cycle_errors t = cycle_errors s @ ys)
      \<and> (b \<longrightarrow> cycle_errors t \<noteq> [])"
  "dfs_deps n' nodes' p' deps s' = Some (b', t') \<Longrightarrow>
      visited s' \<subseteq> visited t'
      \<and> (\<exists>ys. cycle_errors t' = cycle_errors s' @ ys)
      \<and> (b' \<longrightarrow> cycle_errors t' \<noteq> [])"
proof (induction n nodes x p s and n' nodes' p' deps s' arbitrary: b t and b' t'
       rule: dfs_dfs_deps.induct)
  case (1 nodes nodeId path s)
  then show ?case by simp
next
  case (2 n nodes nodeId path s)
  from "2.prems" show ?case
  proof (cases rule: dfs_Suc_cases)
    case dangling
    then show ?thesis by (auto simp: enter_def)
  next
    case (found_cycle node)
    from "2.IH"[OF _ found_cycle(1), of "enter nodeId s" True t] found_cycle(2)
    show ?thesis by (auto simp: enter_def)
  next
    case (finished node s2)
    from "2.IH"[OF _ finished(1), of "enter nodeId s" False s2] finished(2)
    show ?thesis using finished(3,4) by (auto simp: enter_def)
  qed
next
  case (3 n nodes path s)
  then show ?case by auto
next
  case (4 n nodes path depId rest s)
  from "4.prems" show ?case
  proof (cases rule: dfs_deps_Cons_cases)
    case descend_cycle
    from "4.IH"(1)[OF descend_cycle(1,2)] descend_cycle(3) show ?thesis by auto
  next
    case (descend s1)
    from "4.IH"(1)[OF descend(1,2)]
    have a: "visited s \<subseteq> visited s1" "\<exists>ys. cycle_errors s1 = cycle_errors s @ ys" by auto
    from "4.IH"(2)[OF descend(1,2), of b' t'] descend(3)
    have b: "visited s1 \<subseteq> visited t'" "\<exists>ys. cycle_errors t' = cycle_errors s1 @ ys"
      "b' \<longrightarrow> cycle_errors t' \<noteq> []" by auto
    from a b show ?thesis by auto
  next
    case back_edge
    then show ?thesis by auto
  next
    case skip
    from "4.IH"(3)[OF _ skip(2,3)] skip(1) show ?thesis by auto
  qed
qed

lemma finite_all_ids: "finite (all_ids nodes)"
  by (simp add: all_ids_def)

lemma card_all_ids: "card (all_ids nodes) < depth_bound nodes"
proof -
  have "card (all_ids nodes)
        \<le> card (set (map dep_id nodes)) + card (set (concat (map dependencies nodes)))"
    unfolding all_ids_def by (rule card_Un_le)
  also have "\<dots> \<le> length (map dep_id nodes) + length (concat (map dependencies nodes))"
    by (intro add_mono card_length)
  finally show ?thesis by (simp add: depth_bound_def)
qed

lemma find_node_in: "find_node nodes x = Some node \<Longrightarrow> node \<in> set nodes \<and> dep_id node = x"
  by (auto simp: find_node_def find_Some_iff)

lemma find_node_deps: "find_node nodes x = Some node \<Longrightarrow> set (dependencies node) \<subseteq> all_ids nodes"
  by (auto simp: all_ids_def dest: find_node_in)

lemma card_unvisited_enter:
  assumes "x \<in> U" "x \<notin> visited s" "finite U" "card (U - visited s) \<le> Suc n"
  shows "card (U - visited (enter x s)) \<le> n"
proof -
  have "U - visited (enter x s) = (U - visited s) - {x}"
    by (auto simp: enter_def)
  moreover have "x \<in> U - visited s" using assms by simp
  ultimately show ?thesis using assms by (simp add: card_Diff_singleton)
qed

lemma dfs_total:
  "x \<in> all_ids nodes \<Longrightarrow> x \<notin> visited s \<Longrightarrow> card (all_ids nodes - visited s) \<le> n
   \<Longrightarrow> dfs n nodes x p s \<noteq> None"
  "set deps \<subseteq> all_ids nodes' \<Longrightarrow> card (all_ids nodes' - visited s') \<le> n'
   \<Longrightarrow> dfs_deps n' nodes' p' deps s' \<noteq> None"
proof (induction n nodes x p s and n' nodes' p' deps s' rule: dfs_dfs_deps.induct)
  case (1 nodes nodeId path s)
  then have "nodeId \<in> all_ids nodes - visited s" by simp
  then have "card (all_ids nodes - visited s) \<noteq> 0"
    using finite_all_ids[of nodes] by auto
  with 1 show ?case by simp
next
  case (2 n nodes nodeId path s)
  show ?case
  proof (cases "find_node nodes nodeId")
    case None
    then show ?thesis by (auto simp: Let_def)
  next
    case (Some node)
    have c: "card (all_ids nodes - visited (enter nodeId s)) \<le> n"
      using "2.prems" finite_all_ids by (intro card_unvisited_enter) auto
    from "2.IH"[OF _ Some find_node_deps[OF Some], of "enter nodeId s"] c
    have "dfs_deps n nodes path (dependencies node) (enter nodeId s) \<noteq> None"
      by (simp add: enter_def)
    with Some show ?thesis by (auto simp: Let_def enter_def)
  qed
next
  case (3 n nodes path s)
  then show ?case by simp
next
  case (4 n nodes path depId rest s)
  show ?case
  proof (cases "depId \<in> visited s")
    case True
    show ?thesis
    proof (cases "depId \<in> recursionStack s")
      case True
      with \<open>depId \<in> visited s\<close> show ?thesis by auto
    next
      case False
      from "4.IH"(3)[OF _ False] True "4.prems" show ?thesis by auto
    qed
  next
    case False
    from "4.IH"(1)[OF False _ False] "4.prems"
    obtain r1 where r1: "dfs n nodes depId (path @ [depId]) s = Some r1" by auto
    show ?thesis
    proof (cases "fst r1")
      case True
      with r1 False show ?thesis by auto
    next
      case nf: False
      from r1 have "dfs n nodes depId (path @ [depId]) s = Some (fst r1, snd r1)" by simp
      from dfs_mono(1)[OF this] have "visited s \<subseteq> visited (snd r1)" by simp
      then have "card (all_ids nodes - visited (snd r1)) \<le> card (all_ids nodes - visited s)"
        using finite_all_ids[of nodes] by (intro card_mono) auto
      with "4.prems" have "card (all_ids nodes - visited (snd r1)) \<le> n" by simp
      from "4.IH"(2)[OF False r1 nf _ this] "4.prems"
      have "dfs_deps n nodes path rest (snd r1) \<noteq> None" by simp
      with r1 False nf show ?thesis by auto
    qed
  qed
qed

lemma check_all_total:
  "set rest \<subseteq> set nodes \<Longrightarrow> card (all_ids nodes) \<le> n \<Longrightarrow> check_all n nodes rest s \<noteq> None"
proof (induction rest arbitrary: s)
  case Nil
  then show ?case by simp
next
  case (Cons node rest)
  have le: "card (all_ids nodes - visited s) \<le> n" for s :: dfs_state
  proof -
    have "card (all_ids nodes - visited s) \<le> card (all_ids nodes)"
      using finite_all_ids[of nodes] by (intro card_mono) auto
    with Cons.prems show ?thesis by auto
  qed
  show ?case
  proof (cases "dep_id node \<in> visited s")
    case True
    with Cons show ?thesis by auto
  next
    case False
    have "dep_id node \<in> all_ids nodes" using Cons.prems by (auto simp: all_ids_def)
    from dfs_total(1)[OF this False le]
    obtain r where r: "dfs n nodes (dep_id node) [dep_id node] s = Some r" by blast
    from Cons.IH[of "snd r"] Cons.prems have "check_all n nodes rest (snd r) \<noteq> None"
      by auto
    with r False show ?thesis by auto
  qed
qed

lemma detectCycles_total: "\<exists>r. detectCycles nodes = Some r"
proof -
  have "card (all_ids nodes) \<le> depth_bound nodes"
    using card_all_ids[of nodes] by simp
  from check_all_total[OF subset_refl this, of "\<lparr> visited = {}, recursionStack = {}, cycle_errors = [] \<rparr>"]
  obtain t where "check_all (depth_bound nodes) nodes nodes
             \<lparr> visited = {}, recursionStack = {}, cycle_errors = [] \<rparr> = Some t" by auto
  then show ?thesis by (simp add: detectCycles_def)
qed

lemma same_stack_trans: "same_stack nodes s t \<Longrightarrow> same_stack nodes t u \<Longrightarrow> same_stack nodes s u"
  by (simp add: same_stack_def)

lemma settled_kept:
  "settled nodes s d \<Longrightarrow> visited s \<subseteq> visited t \<Longrightarrow> same_stack nodes s t \<Longrightarrow> settled nodes t d"
  by (auto simp: settled_def same_stack_def)

lemma succs_undeclared: "find_node nodes x = None \<Longrightarrow> succs nodes x = []"
  by (simp add: succs_def)

lemma inv_enter:
  assumes "dfs_inv nodes s" "x \<notin> visited s"
  shows "dfs_inv nodes (enter x s)"
proof -
  have "settled nodes (enter x s) d" if "settled nodes s d" for d
    using that assms(2) by (auto simp: settled_def enter_def)
  with assms show ?thesis
    by (auto simp: dfs_inv_def enter_def)
qed

lemma settled_reach:
  assumes inv: "dfs_inv nodes s" and x: "x \<in> visited s" "x \<notin> recursionStack s"
    and r: "(x, y) \<in> (dep_rel nodes)\<^sup>*"
  shows "(y \<in> visited s \<and> y \<notin> recursionStack s) \<or> find_node nodes y = None"
  using r
proof (induction rule: rtrancl_induct)
  case base
  with x show ?case by simp
next
  case (step y z)
  from step.hyps(2) have z: "z \<in> set (succs nodes y)" by (simp add: dep_rel_def)
  then have "find_node nodes y \<noteq> None" by (cases "find_node nodes y") (auto simp: succs_def)
  with step.IH have "y \<in> visited s \<and> y \<notin> recursionStack s" by simp
  with inv z have "settled nodes s z" by (auto simp: dfs_inv_def)
  then show ?case by (auto simp: settled_def)
qed

lemma inv_leave:
  assumes inv: "dfs_inv nodes s" and x: "x \<in> visited s" "x \<in> recursionStack s"
    and decl: "find_node nodes x \<noteq> None"
    and deps: "\<forall>d \<in> set (succs nodes x). settled nodes s d"
  shows "dfs_inv nodes (s\<lparr> recursionStack := recursionStack s - {x} \<rparr>)"
proof -
  let ?t = "s\<lparr> recursionStack := recursionStack s - {x} \<rparr>"
  have keep: "settled nodes ?t d" if "settled nodes s d" for d
    using that by (auto simp: settled_def)
  have acyclic: "(x, x) \<notin> (dep_rel nodes)\<^sup>+"
  proof
    assume "(x, x) \<in> (dep_rel nodes)\<^sup>+"
    then obtain d where d: "(x, d) \<in> dep_rel nodes" and ret: "(d, x) \<in> (dep_rel nodes)\<^sup>*"
      by (auto dest: tranclD)
    from d deps have sd: "settled nodes s d" by (simp add: dep_rel_def)
    show False
    proof (cases "find_node nodes d = None")
      case True
      from ret show False
      proof (cases rule: converse_rtranclE)
        case base
        with True decl show False by simp
      next
        case (step z)
        with True show False by (simp add: dep_rel_def succs_undeclared)
      qed
    next
      case False
      with sd have "d \<in> visited s" "d \<notin> recursionStack s" by (auto simp: settled_def)
      from settled_reach[OF inv this ret] x decl show False by simp
    qed
  qed
  have "recursionStack ?t \<subseteq> visited ?t"
    using inv by (auto simp: dfs_inv_def)
  moreover have "(\<forall>d \<in> set (succs nodes y). settled nodes ?t d) \<and> (y, y) \<notin> (dep_rel nodes)\<^sup>+"
    if "y \<in> visited ?t" "y \<notin> recursionStack ?t" for y
  proof (cases "y = x")
    case True
    with deps keep acyclic show ?thesis by simp
  next
    case False
    with that have "y \<in> visited s" "y \<notin> recursionStack s" by auto
    with inv have "(\<forall>d \<in> set (succs nodes y). settled nodes s d) \<and> (y, y) \<notin> (dep_rel nodes)\<^sup>+"
      by (simp add: dfs_inv_def)
    with keep show ?thesis by simp
  qed
  ultimately show ?thesis unfolding dfs_inv_def by blast
qed

lemma dfs_sound:
  "dfs n nodes x p s = Some (False, t) \<Longrightarrow> cycle_errors t = [] \<Longrightarrow> dfs_inv nodes s
   \<Longrightarrow> x \<notin> visited s
   \<Longrightarrow> dfs_inv nodes t \<and> same_stack nodes s t \<and> settled nodes t x"
  "dfs_deps n' nodes' p' deps s' = Some (False, t') \<Longrightarrow> cycle_errors t' = []
   \<Longrightarrow> dfs_inv nodes' s'
   \<Longrightarrow> dfs_inv nodes' t' \<and> same_stack nodes' s' t' \<and> (\<forall>d \<in> set deps. settled nodes' t' d)"
proof (induction n nodes x p s and n' nodes' p' deps s' arbitrary: t and t'
       rule: dfs_dfs_deps.induct)
  case (1 nodes nodeId path s)
  then show ?case by simp
next
  case (2 n nodes nodeId path s)
  from "2.prems"(1) show ?case
  proof (cases rule: dfs_Suc_cases)
    case dangling
    have "dfs_inv nodes (enter nodeId s)"
      using "2.prems" by (intro inv_enter)
    moreover have "same_stack nodes s (enter nodeId s)"
      using dangling(1) by (auto simp: same_stack_def enter_def)
    moreover have "settled nodes (enter nodeId s) nodeId"
      using dangling(1) by (simp add: settled_def enter_def)
    ultimately show ?thesis using dangling(3) by simp
  next
    case (found_cycle node)
    then show ?thesis by simp
  next
    case (finished node s2)
    from finished(4) "2.prems"(2) have e2: "cycle_errors s2 = []" by simp
    have inv1: "dfs_inv nodes (enter nodeId s)"
      using "2.prems" by (intro inv_enter)
    from "2.IH"[OF _ finished(1), of "enter nodeId s" s2] finished(2) e2 inv1
    have inv2: "dfs_inv nodes s2" and st: "same_stack nodes (enter nodeId s) s2"
      and deps: "\<forall>d \<in> set (dependencies node). settled nodes s2 d"
      by (auto simp: enter_def)
    from dfs_mono(2)[OF finished(2)] have vis: "nodeId \<in> visited s2"
      by (auto simp: enter_def)
    from st finished(1) have stk: "nodeId \<in> recursionStack s2"
      by (auto simp: same_stack_def enter_def)
    have sx: "succs nodes nodeId = dependencies node"
      using finished(1) by (simp add: succs_def)
    have "dfs_inv nodes t"
      unfolding finished(4) using inv2 vis stk finished(1) deps sx
      by (intro inv_leave) auto
    moreover have "same_stack nodes s t"
    proof -
      from "2.prems"(3,4) have "nodeId \<notin> recursionStack s" by (auto simp: dfs_inv_def)
      with st show ?thesis
        unfolding finished(4) by (auto simp: same_stack_def enter_def)
    qed
    moreover have "settled nodes t nodeId"
      unfolding finished(4) using vis by (simp add: settled_def)
    ultimately show ?thesis by simp
  qed
next
  case (3 n nodes path s)
  then show ?case by (simp add: same_stack_def)
next
  case (4 n nodes path depId rest s)
  from "4.prems"(1) show ?case
  proof (cases rule: dfs_deps_Cons_cases)
    case descend_cycle
    then show ?thesis by simp
  next
    case (descend s1)
    from dfs_mono(2)[OF descend(3)] "4.prems"(2) have e1: "cycle_errors s1 = []"
      by auto
    from "4.IH"(1)[OF descend(1,2) e1 "4.prems"(3) descend(1)]
    have inv1: "dfs_inv nodes s1" and st1: "same_stack nodes s s1"
      and sd: "settled nodes s1 depId" by simp_all
    from "4.IH"(2)[OF descend(1,2), of t'] descend(3) "4.prems"(2) inv1
    have inv2: "dfs_inv nodes t'" and st2: "same_stack nodes s1 t'"
      and sr: "\<forall>d \<in> set rest. settled nodes t' d" by simp_all
    from dfs_mono(2)[OF descend(3)] have "visited s1 \<subseteq> visited t'" by simp
    from settled_kept[OF sd this st2] have "settled nodes t' depId" .
    with inv2 sr same_stack_trans[OF st1 st2] show ?thesis by simp
  next
    case back_edge
    then show ?thesis by simp
  next
    case skip
    from "4.IH"(3)[OF _ skip(2,3) "4.prems"(2,3)] skip(1)
    have inv2: "dfs_inv nodes t'" and st: "same_stack nodes s t'"
      and sr: "\<forall>d \<in> set rest. settled nodes t' d" by simp_all
    from dfs_mono(2)[OF skip(3)] have v: "visited s \<subseteq> visited t'" by simp
    from skip(1,2) have sd: "settled nodes s depId" by (simp add: settled_def)
    from settled_kept[OF sd v st] have "settled nodes t' depId" .
    with inv2 st sr show ?thesis by simp
  qed
qed

lemma check_all_mono:
  "check_all n nodes rest s = Some t \<Longrightarrow>
     visited s \<subseteq> visited t \<and> (\<exists>ys. cycle_errors t = cycle_errors s @ ys)"
proof (induction rest arbitrary: s)
  case Nil
  then show ?case by simp
next
  case (Cons node rest)
  show ?case
  proof (cases "dep_id node \<in> visited s")
    case True
    with Cons show ?thesis by simp
  next
    case False
    with Cons.prems obtain b s1 where d: "dfs n nodes (dep_id node) [dep_id node] s = Some (b, s1)"
      and c: "check_all n nodes rest s1 = Some t"
      by (auto split: option.splits)
    from dfs_mono(1)[OF d] Cons.IH[OF c] show ?thesis by auto
  qed
qed

lemma check_all_sound:
  "check_all n nodes rest s = Some t \<Longrightarrow> cycle_errors t = [] \<Longrightarrow> dfs_inv nodes s
   \<Longrightarrow> dfs_inv nodes t \<and> same_stack nodes s t \<and> dep_id ` set rest \<subseteq> visited t"
proof (induction rest arbitrary: s)
  case Nil
  then show ?case by (simp add: same_stack_def)
next
  case (Cons node rest)
  show ?case
  proof (cases "dep_id node \<in> visited s")
    case True
    with Cons.prems have c: "check_all n nodes rest s = Some t" by simp
    from Cons.IH[OF c Cons.prems(2,3)] check_all_mono[OF c] True show ?thesis by auto
  next
    case False
    with Cons.prems obtain b s1 where d: "dfs n nodes (dep_id node) [dep_id node] s = Some (b, s1)"
      and c: "check_all n nodes rest s1 = Some t"
      by (auto split: option.splits)
    from check_all_mono[OF c] Cons.prems(2) have e1: "cycle_errors s1 = []" by auto
    with dfs_mono(1)[OF d] have nb: "\<not> b" by auto
    from d nb have d': "dfs n nodes (dep_id node) [dep_id node] s = Some (False, s1)" by simp
    from dfs_sound(1)[OF d' e1 Cons.prems(3) False]
    have inv1: "dfs_inv nodes s1" and st1: "same_stack nodes s s1" by auto
    from Cons.IH[OF c Cons.prems(2) inv1]
    have inv2: "dfs_inv nodes t" and st2: "same_stack nodes s1 t"
      and vis: "dep_id ` set rest \<subseteq> visited t" by simp_all
    from dfs_mono(1)[OF d] check_all_mono[OF c] have "dep_id node \<in> visited t" by auto
    with inv2 vis same_stack_trans[OF st1 st2] show ?thesis by simp
  qed
qed

lemma detectCycles_rejects_cycle:
  assumes "b \<in> set (succs nodes a)" "c \<in> set (succs nodes b)" "a \<in> set (succs nodes c)"
  shows "\<exists>r. detectCycles nodes = Some r \<and> \<not> vr_valid r \<and> vr_errors r \<noteq> []"
proof -
  let ?s0 = "\<lparr> visited = {}, recursionStack = {}, cycle_errors = [] \<rparr>"
  from detectCycles_total[of nodes] obtain r where r: "detectCycles nodes = Some r" by blast
  then obtain t where t: "check_all (depth_bound nodes) nodes nodes ?s0 = Some t"
    and rt: "r = \<lparr> vr_valid = (cycle_errors t = []), vr_errors = cycle_errors t, vr_warnings = [] \<rparr>"
    by (auto simp: detectCycles_def split: option.splits)
  have "cycle_errors t \<noteq> []"
  proof
    assume e: "cycle_errors t = []"
    have inv0: "dfs_inv nodes ?s0" by (simp add: dfs_inv_def)
    from check_all_sound[OF t e inv0]
    have inv: "dfs_inv nodes t" and st: "same_stack nodes ?s0 t"
      and vis: "dep_id ` set nodes \<subseteq> visited t" by simp_all
    from assms(1) obtain node where fa: "find_node nodes a = Some node"
      by (cases "find_node nodes a") (auto simp: succs_def)
    from find_node_in[OF fa] vis have "a \<in> visited t" by auto
    moreover from st fa have "a \<notin> recursionStack t" by (simp add: same_stack_def)
    ultimately have "(a, a) \<notin> (dep_rel nodes)\<^sup>+" using inv by (simp add: dfs_inv_def)
    moreover have "(a, b) \<in> dep_rel nodes" "(b, c) \<in> dep_rel nodes" "(c, a) \<in> dep_rel nodes"
      using assms by (simp_all add: dep_rel_def)
    then have "(a, a) \<in> (dep_rel nodes)\<^sup>+"
      by (blast intro: trancl.intros)
    ultimately show False by simp
  qed
  with r rt show ?thesis by simp
qed

lemma succs_single: "succs nodes x = [y] \<Longrightarrow> \<exists>node. find_node nodes x = Some node \<and> dependencies node = [y]"
  by (cases "find_node nodes x") (auto simp: succs_def)

lemma dfs_deps_single_back:
  assumes "dfs_deps n nodes p [d] s = Some (b', t)" "d \<in> visited s" "d \<in> recursionStack s"
  shows "cycle_errors t = cycle_errors s @ [''Circular dependency detected: '' @ join arrow (p @ [d])]"
  using assms(1)
proof (cases rule: dfs_deps_Cons_cases)
  case descend_cycle
  with assms(2) show ?thesis by simp
next
  case (descend s1)
  with assms(2) show ?thesis by simp
next
  case back_edge
  then show ?thesis by simp
next
  case skip
  with assms(3) show ?thesis by simp
qed

lemma dfs_deps_single_descend:
  assumes "dfs_deps n nodes p [d] s = Some (b', t)" "d \<notin> visited s"
  shows "\<exists>b1. dfs n nodes d (p @ [d]) s = Some (b1, t)"
  using assms(1)
proof (cases rule: dfs_deps_Cons_cases)
  case descend_cycle
  then show ?thesis by blast
next
  case (descend s1)
  then show ?thesis by auto
next
  case back_edge
  with assms(2) show ?thesis by simp
next
  case skip
  with assms(2) show ?thesis by simp
qed

lemma dfs_single_dep:
  assumes "dfs n nodes x p s = Some (b', t)" "succs nodes x = [y]"
  shows "\<exists>m b2 t2. dfs_deps m nodes p [y] (enter x s) = Some (b2, t2)
           \<and> cycle_errors t = cycle_errors t2"
proof (cases n)
  case 0
  with assms show ?thesis by simp
next
  case (Suc m)
  from succs_single[OF assms(2)] obtain node where
    f: "find_node nodes x = Some node" and d: "dependencies node = [y]" by blast
  from assms(1)[unfolded Suc] show ?thesis
  proof (cases rule: dfs_Suc_cases)
    case dangling
    with f show ?thesis by simp
  next
    case (found_cycle node')
    from found_cycle(1) f have "node' = node" by simp
    with found_cycle(2) d have "dfs_deps m nodes p [y] (enter x s) = Some (True, t)"
      by (simp del: dfs_deps.simps)
    then show ?thesis by blast
  next
    case (finished node' s2)
    from finished(1) f have "node' = node" by simp
    with finished(2) d have "dfs_deps m nodes p [y] (enter x s) = Some (False, s2)"
      by (simp del: dfs_deps.simps)
    moreover from finished(4) have "cycle_errors t = cycle_errors s2" by simp
    ultimately show ?thesis by blast
  qed
qed

lemma dfs_on_cycle:
  assumes run: "dfs n nodes a (pre @ [a]) s = Some (b', t)"
    and dist: "distinct [a, b, c]"
    and sa: "succs nodes a = [b]" and sb: "succs nodes b = [c]" and sc: "succs nodes c = [a]"
    and fresh: "a \<notin> visited s" "b \<notin> visited s" "c \<notin> visited s"
  shows "cycle_errors t = cycle_errors s
           @ [''Circular dependency detected: '' @ join arrow (pre @ [a, b, c, a])]"
proof -
  from dfs_single_dep[OF run sa] obtain m1 b1 t1 where
    d1: "dfs_deps m1 nodes (pre @ [a]) [b] (enter a s) = Some (b1, t1)"
    and e1: "cycle_errors t = cycle_errors t1" by blast
  from fresh dist have "b \<notin> visited (enter a s)" by (auto simp: enter_def)
  from dfs_deps_single_descend[OF d1 this] obtain b1' where
    r2: "dfs m1 nodes b ((pre @ [a]) @ [b]) (enter a s) = Some (b1', t1)" by blast
  from dfs_single_dep[OF r2 sb] obtain m2 b2 t2 where
    d2: "dfs_deps m2 nodes ((pre @ [a]) @ [b]) [c] (enter b (enter a s)) = Some (b2, t2)"
    and e2: "cycle_errors t1 = cycle_errors t2" by blast
  from fresh dist have "c \<notin> visited (enter b (enter a s))" by (auto simp: enter_def)
  from dfs_deps_single_descend[OF d2 this] obtain b2' where
    r3: "dfs m2 nodes c (((pre @ [a]) @ [b]) @ [c]) (enter b (enter a s)) = Some (b2', t2)"
    by blast
  from dfs_single_dep[OF r3 sc] obtain m3 b3 t3 where
    d3: "dfs_deps m3 nodes (((pre @ [a]) @ [b]) @ [c]) [a] (enter c (enter b (enter a s)))
           = Some (b3, t3)"
    and e3: "cycle_errors t2 = cycle_errors t3" by blast
  have "a \<in> visited (enter c (enter b (enter a s)))"
       "a \<in> recursionStack (enter c (enter b (enter a s)))"
    by (simp_all add: enter_def)
  from dfs_deps_single_back[OF d3 this]
  have "cycle_errors t3 = cycle_errors s
          @ [''Circular dependency detected: '' @ join arrow (pre @ [a, b, c, a])]"
    by (simp add: enter_def)
  with e1 e2 e3 show ?thesis by simp
qed

lemma reported_mono:
  "reported a b c s \<Longrightarrow> \<exists>ys. cycle_errors t = cycle_errors s @ ys \<Longrightarrow> reported a b c t"
  by (auto simp: reported_def)

lemma simple_cycle_rotate: "simple_cycle nodes a b c \<Longrightarrow> simple_cycle nodes b c a"
  by (auto simp: simple_cycle_def)

lemma dfs_on_simple_cycle:
  assumes "dfs n nodes a (pre @ [a]) s = Some (b', t)" "simple_cycle nodes a b c"
    "a \<notin> visited s" "b \<notin> visited s" "c \<notin> visited s"
  shows "\<exists>e \<in> set (cycle_errors t). cycle_report a b c e"
proof -
  from assms(2) have "distinct [a, b, c]" "succs nodes a = [b]" "succs nodes b = [c]"
    "succs nodes c = [a]" by (simp_all add: simple_cycle_def)
  from dfs_on_cycle[OF assms(1) this assms(3-5)] show ?thesis
    by (auto simp: cycle_report_def)
qed

lemma dfs_reports:
  "dfs n nodes x p s = Some (b', t) \<Longrightarrow> p \<noteq> [] \<Longrightarrow> last p = x
     \<Longrightarrow> untouched_or_reported a b c s \<Longrightarrow> simple_cycle nodes a b c
     \<Longrightarrow> untouched_or_reported a b c t"
  "dfs_deps n' nodes' p' deps s' = Some (b'', t')
     \<Longrightarrow> untouched_or_reported a b c s' \<Longrightarrow> simple_cycle nodes' a b c
     \<Longrightarrow> untouched_or_reported a b c t'"
proof (induction n nodes x p s and n' nodes' p' deps s' arbitrary: b' t and b'' t'
       rule: dfs_dfs_deps.induct)
  case (1 nodes nodeId path s)
  then show ?case by simp
next
  case (2 n nodes nodeId path s)
  note cyc = "2.prems"(5)
  show ?case
  proof (cases "reported a b c s")
    case True
    from dfs_mono(1)[OF "2.prems"(1)] have "\<exists>ys. cycle_errors t = cycle_errors s @ ys" by simp
    from reported_mono[OF True this] show ?thesis
      by (simp add: untouched_or_reported_def)
  next
    case False
    with "2.prems"(4) have fresh: "a \<notin> visited s" "b \<notin> visited s" "c \<notin> visited s"
      by (auto simp: untouched_or_reported_def)
    from "2.prems"(2,3) have pre: "path = butlast path @ [nodeId]"
      using append_butlast_last_id[of path] by simp
    have run: "dfs (Suc n) nodes nodeId (butlast path @ [nodeId]) s = Some (b', t)"
      using "2.prems"(1) pre by simp
    show ?thesis
    proof (cases "nodeId \<in> {a, b, c}")
      case True
      then consider "nodeId = a" | "nodeId = b" | "nodeId = c" by blast
      then have "reported a b c t"
      proof cases
        case 1
        from dfs_on_simple_cycle[OF run[unfolded 1] cyc fresh]
        show ?thesis by (auto simp: reported_def)
      next
        case 2
        from dfs_on_simple_cycle[OF run[unfolded 2] simple_cycle_rotate[OF cyc] fresh(2,3,1)]
        show ?thesis by (auto simp: reported_def)
      next
        case 3
        from dfs_on_simple_cycle[OF run[unfolded 3]
               simple_cycle_rotate[OF simple_cycle_rotate[OF cyc]] fresh(3,1,2)]
        show ?thesis by (auto simp: reported_def)
      qed
      then show ?thesis by (simp add: untouched_or_reported_def)
    next
      case notin: False
      with fresh have u1: "untouched_or_reported a b c (enter nodeId s)"
        by (auto simp: untouched_or_reported_def enter_def)
      from "2.prems"(1) show ?thesis
      proof (cases rule: dfs_Suc_cases)
        case dangling
        with u1 show ?thesis by simp
      next
        case (found_cycle node)
        from "2.IH"[OF _ found_cycle(1), of "enter nodeId s" True t] found_cycle(2) u1 cyc
        show ?thesis by (simp add: enter_def)
      next
        case (finished node s2)
        from "2.IH"[OF _ finished(1), of "enter nodeId s" False s2] finished(2) u1 cyc
        have "untouched_or_reported a b c s2" by (simp add: enter_def)
        then show ?thesis
          unfolding finished(4) by (simp add: untouched_or_reported_def reported_def)
      qed
    qed
  qed
next
  case (3 n nodes path s)
  then show ?case by simp
next
  case (4 n nodes path depId rest s)
  note cyc = "4.prems"(3)
  from "4.prems"(1) show ?case
  proof (cases rule: dfs_deps_Cons_cases)
    case descend_cycle
    from "4.IH"(1)[OF descend_cycle(1,2) _ _ "4.prems"(2) cyc] show ?thesis by simp
  next
    case (descend s1)
    from "4.IH"(1)[OF descend(1,2) _ _ "4.prems"(2) cyc]
    have "untouched_or_reported a b c s1" by simp
    from "4.IH"(2)[OF descend(1,2), of b'' t'] descend(3) this cyc
    show ?thesis by simp
  next
    case back_edge
    with "4.prems"(2) show ?thesis
      by (auto simp: untouched_or_reported_def reported_def)
  next
    case skip
    from "4.IH"(3)[OF _ skip(2,3) "4.prems"(2) cyc] skip(1) show ?thesis by simp
  qed
qed

lemma check_all_reports:
  "check_all n nodes rest s = Some t \<Longrightarrow> untouched_or_reported a b c s
   \<Longrightarrow> simple_cycle nodes a b c \<Longrightarrow> untouched_or_reported a b c t"
proof (induction rest arbitrary: s)
  case Nil
  then show ?case by simp
next
  case (Cons node rest)
  show ?case
  proof (cases "dep_id node \<in> visited s")
    case True
    with Cons show ?thesis by simp
  next
    case False
    with Cons.prems obtain b1 s1 where d: "dfs n nodes (dep_id node) [dep_id node] s = Some (b1, s1)"
      and c: "check_all n nodes rest s1 = Some t"
      by (auto split: option.splits)
    from dfs_reports(1)[OF d _ _ Cons.prems(2,3)] have "untouched_or_reported a b c s1" by simp
    from Cons.IH[OF c this Cons.prems(3)] show ?thesis .
  qed
qed

lemma check_all_visits:
  "check_all n nodes rest s = Some t \<Longrightarrow> dep_id ` set rest \<subseteq> visited t"
proof (induction rest arbitrary: s)
  case Nil
  then show ?case by simp
next
  case (Cons node rest)
  show ?case
  proof (cases "dep_id node \<in> visited s")
    case True
    with Cons.prems have c: "check_all n nodes rest s = Some t" by simp
    from Cons.IH[OF c] check_all_mono[OF c] True show ?thesis by auto
  next
    case False
    with Cons.prems obtain b s1 where d: "dfs n nodes (dep_id node) [dep_id node] s = Some (b, s1)"
      and c: "check_all n nodes rest s1 = Some t"
      by (auto split: option.splits)
    from dfs_mono(1)[OF d] check_all_mono[OF c] Cons.IH[OF c] show ?thesis by auto
  qed
qed

lemma detectCycles_dependency_cycle:
  assumes "b \<in> set (succs nodes a)" "c \<in> set (succs nodes b)" "a \<in> set (succs nodes c)"
  shows "\<exists>r. detectCycles nodes = Some r \<and> \<not> vr_valid r \<and> vr_errors r \<noteq> []
           \<and> (simple_cycle nodes a b c \<longrightarrow>
                (\<exists>e \<in> set (vr_errors r).
                   cycle_report a b c e \<or> cycle_report b c a e \<or> cycle_report c a b e))"
proof -
  let ?s0 = "\<lparr> visited = {}, recursionStack = {}, cycle_errors = [] \<rparr>"
  from detectCycles_rejects_cycle[OF assms] obtain r where
    r: "detectCycles nodes = Some r" and bad: "\<not> vr_valid r" "vr_errors r \<noteq> []" by blast
  from r obtain t where t: "check_all (depth_bound nodes) nodes nodes ?s0 = Some t"
    and e: "vr_errors r = cycle_errors t"
    by (auto simp: detectCycles_def split: option.splits)
  have "\<exists>e \<in> set (vr_errors r).
          cycle_report a b c e \<or> cycle_report b c a e \<or> cycle_report c a b e"
    if cyc: "simple_cycle nodes a b c"
  proof -
    have "untouched_or_reported a b c ?s0" by (simp add: untouched_or_reported_def)
    from check_all_reports[OF t this cyc] have u: "untouched_or_reported a b c t" .
    from assms(1) obtain node where "find_node nodes a = Some node"
      by (cases "find_node nodes a") (auto simp: succs_def)
    from find_node_in[OF this] check_all_visits[OF t] have "a \<in> visited t" by auto
    with u have "reported a b c t" by (simp add: untouched_or_reported_def)
    with e show ?thesis by (simp add: reported_def)
  qed
  with r bad show ?thesis by blast
qed

text \<open>
  C2, as the code has it. \<open>detectCycles\<close> is a depth-first traversal with a recursion
  stack, started from every node not yet visited, and it always terminates. Whenever
  the workflow contains the cycle of edges \<open>a\<close> to \<open>b\<close>, \<open>b\<close> to \<open>c\<close>, \<open>c\<close> to \<open>a\<close>
  (each node depending on the one before it), wherever the cycle lies, validation fails
  with a non-empty list of errors. When moreover the three nodes are distinct and have
  no other dependency, one of the errors ends with the closed path through them in the
  order of the traversal. The traversal follows the dependencies, so that path runs
  against the edges: \<open>a\<close>, \<open>c\<close>, \<open>b\<close>, \<open>a\<close>, or its rotation from the node of the
  cycle that the traversal met first.
\<close>

theorem detectCycles_finds_cycle:
  assumes "has_edge nodes a b" "has_edge nodes b c" "has_edge nodes c a"
  shows "\<exists>r. detectCycles nodes = Some r \<and> \<not> vr_valid r \<and> vr_errors r \<noteq> []
           \<and> (distinct [a, b, c] \<and> succs nodes b = [a] \<and> succs nodes c = [b]
                \<and> succs nodes a = [c] \<longrightarrow>
                (\<exists>e \<in> set (vr_errors r).
                   cycle_report a c b e \<or> cycle_report c b a e \<or> cycle_report b a c e))"
proof -
  from assms have deps: "c \<in> set (succs nodes a)" "b \<in> set (succs nodes c)"
    "a \<in> set (succs nodes b)"
    by (simp_all add: has_edge_def)
  have "simple_cycle nodes a c b"
    if "distinct [a, b, c] \<and> succs nodes b = [a] \<and> succs nodes c = [b] \<and> succs nodes a = [c]"
    using that by (auto simp: simple_cycle_def)
  with detectCycles_dependency_cycle[OF deps] show ?thesis by blast
qed

theorem detectCycles_finds_cycle_witness:
  "has_edge cycle_nodes ''nodeA'' ''nodeB''
   \<and> has_edge cycle_nodes ''nodeB'' ''nodeC''
   \<and> has_edge cycle_nodes ''nodeC'' ''nodeA''
   \<and> succs cycle_nodes ''nodeB'' = [''nodeA'']
   \<and> succs cycle_nodes ''nodeC'' = [''nodeB'']
   \<and> succs cycle_nodes ''nodeA'' = [''nodeC'']
   \<and> detectCycles cycle_nodes =
       Some \<lparr> vr_valid = False,
              vr_errors = [''Circular dependency detected: nodeA'' @ arrow @ ''nodeC''
                           @ arrow @ ''nodeB'' @ arrow @ ''nodeA''],
              vr_warnings = [] \<rparr>"
  using detectCycles_finds_cycle [of cycle_nodes "''nodeA''" "''nodeB''" "''nodeC''"]
  by (simp add: detectCycles_def cycle_nodes_def depth_bound_def dependencies_def
        find_node_def succs_def has_edge_def)

text \<open>
  C2, as stated, fails on its own fixture and where another cycle is met first. On the
  documentation's cycle \<open>nodeA\<close> to \<open>nodeB\<close> to \<open>nodeC\<close> and back, the one error names
  the three nodes against the cycle, \<open>nodeA\<close>, \<open>nodeC\<close>, \<open>nodeB\<close>, \<open>nodeA\<close>: no step of
  the cycle, neither \<open>nodeA\<close> to \<open>nodeB\<close> nor \<open>nodeB\<close> to \<open>nodeC\<close> nor \<open>nodeC\<close> to
  \<open>nodeA\<close>, occurs in it. And \<open>dfs\<close> returns at the first back edge, so when each node
  of the cycle also lists itself first, the three errors name one node each and none
  names the cycle. The engine parser's \<open>validateYAML\<close> looks for no cycle at all and
  accepts the cyclic workflow.
\<close>

theorem detectCycles_path_against_edges:
  "has_edge cycle_nodes ''nodeA'' ''nodeB''
   \<and> has_edge cycle_nodes ''nodeB'' ''nodeC''
   \<and> has_edge cycle_nodes ''nodeC'' ''nodeA''
   \<and> detectCycles cycle_nodes =
       Some \<lparr> vr_valid = False,
              vr_errors = [''Circular dependency detected: nodeA'' @ arrow @ ''nodeC''
                           @ arrow @ ''nodeB'' @ arrow @ ''nodeA''],
              vr_warnings = [] \<rparr>
   \<and> \<not> occurs_in (''nodeA'' @ arrow @ ''nodeB'')
         (''Circular dependency detected: nodeA'' @ arrow @ ''nodeC''
          @ arrow @ ''nodeB'' @ arrow @ ''nodeA'')
   \<and> \<not> occurs_in (''nodeB'' @ arrow @ ''nodeC'')
         (''Circular dependency detected: nodeA'' @ arrow @ ''nodeC''
          @ arrow @ ''nodeB'' @ arrow @ ''nodeA'')
   \<and> \<not> occurs_in (''nodeC'' @ arrow @ ''nodeA'')
         (''Circular dependency detected: nodeA'' @ arrow @ ''nodeC''
          @ arrow @ ''nodeB'' @ arrow @ ''nodeA'')
   \<and> has_edge self_loop_nodes ''nodeA'' ''nodeB''
   \<and> has_edge self_loop_nodes ''nodeB'' ''nodeC''
   \<and> has_edge self_loop_nodes ''nodeC'' ''nodeA''
   \<and> detectCycles self_loop_nodes =
       Some \<lparr> vr_valid = False,
              vr_errors = [''Circular dependency detected: nodeA'' @ arrow @ ''nodeA'',
                           ''Circular dependency detected: nodeB'' @ arrow @ ''nodeB'',
                           ''Circular dependency detected: nodeC'' @ arrow @ ''nodeC''],
              vr_warnings = [] \<rparr>
   \<and> \<not> occurs_in ''nodeB'' (''Circular dependency detected: nodeA'' @ arrow @ ''nodeA'')
   \<and> \<not> occurs_in ''nodeC'' (''Circular dependency detected: nodeB'' @ arrow @ ''nodeB'')
   \<and> \<not> occurs_in ''nodeA'' (''Circular dependency detected: nodeC'' @ arrow @ ''nodeC'')
   \<and> validateYAML cycle_yaml = Inr ()"
  by (simp add: detectCycles_def cycle_nodes_def self_loop_nodes_def depth_bound_def
        dependencies_def find_node_def succs_def has_edge_def occurs_in_def arrow_def
        cycle_yaml_def validateYAML_def node_exists_def)

section \<open>Dialogue orchestrator\<close>

lemma executeTurn_unknown_speaker:
  "map_of (ctx_participants c) (turn_speaker turn) = None \<Longrightarrow> executeTurn e turn c w = Inr c"
  by (simp add: executeTurn_def)

lemma executeTurn_appends:
  assumes "executeTurn e turn c w = Inr c'"
    and "map_of (ctx_participants c) (turn_speaker turn) \<noteq> None"
  shows "\<exists>r. ctx_turns c' = ctx_turns c @ [r]
           \<and> conversationHistory c' = conversationHistory c
                @ [getSpeakerName (turn_speaker turn) @ '': '' @ tr_response r]
           \<and> tr_speaker r = turn_speaker turn
           \<and> ctx_participants c' = ctx_participants c"
  using assms
  by (auto simp: executeTurn_def Let_def split: option.splits sum.splits if_splits)

lemma executeTurn_length:
  assumes "executeTurn e turn c w = Inr c'"
    and "length (ctx_turns c) = length (conversationHistory c)"
  shows "length (ctx_turns c') = length (conversationHistory c')"
proof (cases "map_of (ctx_participants c) (turn_speaker turn)")
  case None
  with assms show ?thesis by (simp add: executeTurn_def)
next
  case (Some a)
  with executeTurn_appends[OF assms(1)] assms(2) show ?thesis by auto
qed

lemma sequential_loop_length:
  "sequential_loop e d w ts c = Inr c' \<Longrightarrow> length (ctx_turns c) = length (conversationHistory c)
   \<Longrightarrow> length (ctx_turns c') = length (conversationHistory c')"
proof (induction ts arbitrary: c)
  case Nil
  then show ?case by simp
next
  case (Cons t ts)
  show ?case
  proof (cases "end_condition_met d c w")
    case True
    with Cons.prems show ?thesis by simp
  next
    case False
    with Cons.prems obtain c1 where s: "executeTurn e t c w = Inr c1"
      and r: "sequential_loop e d w ts c1 = Inr c'"
      by (auto split: sum.splits)
    from Cons.IH[OF r executeTurn_length[OF s Cons.prems(2)]] show ?thesis .
  qed
qed

lemma round_robin_turn_length:
  "round_robin_turn e d w i c = Inr c' \<Longrightarrow> length (ctx_turns c) = length (conversationHistory c)
   \<Longrightarrow> length (ctx_turns c') = length (conversationHistory c')"
  by (auto simp: round_robin_turn_def Let_def split: if_splits dest: executeTurn_length)

lemma round_robin_loop_length:
  "round_robin_loop e d w left i c = Inr c' \<Longrightarrow> length (ctx_turns c) = length (conversationHistory c)
   \<Longrightarrow> length (ctx_turns c') = length (conversationHistory c')"
proof (induction left arbitrary: i c)
  case 0
  then show ?case by simp
next
  case (Suc left)
  show ?case
  proof (cases "end_condition_met d c w")
    case True
    with Suc.prems show ?thesis by simp
  next
    case False
    with Suc.prems obtain c1 where s: "round_robin_turn e d w i c = Inr c1"
      and r: "round_robin_loop e d w left (Suc i) c1 = Inr c'"
      by (auto split: sum.splits)
    from Suc.IH[OF r round_robin_turn_length[OF s Suc.prems(2)]] show ?thesis .
  qed
qed

lemma dynamic_turn_length:
  "dynamic_turn e d w c = Inr (Some c') \<Longrightarrow> length (ctx_turns c) = length (conversationHistory c)
   \<Longrightarrow> length (ctx_turns c') = length (conversationHistory c')"
  by (auto simp: dynamic_turn_def Let_def split: if_splits sum.splits dest: executeTurn_length)

lemma dynamic_loop_length:
  "dynamic_loop e d w left c = Inr c' \<Longrightarrow> length (ctx_turns c) = length (conversationHistory c)
   \<Longrightarrow> length (ctx_turns c') = length (conversationHistory c')"
proof (induction left arbitrary: c)
  case 0
  then show ?case by simp
next
  case (Suc left)
  show ?case
  proof (cases "end_condition_met d c w \<or> dynamic_turn e d w c = Inr None")
    case True
    with Suc.prems show ?thesis by (auto split: if_splits)
  next
    case False
    with Suc.prems obtain c1 where s: "dynamic_turn e d w c = Inr (Some c1)"
      and r: "dynamic_loop e d w left c1 = Inr c'"
      by (auto split: sum.splits option.splits)
    from Suc.IH[OF r dynamic_turn_length[OF s Suc.prems(2)]] show ?thesis .
  qed
qed

lemma run_mode_length:
  "run_mode e d c w m = Inr c' \<Longrightarrow> length (ctx_turns c) = length (conversationHistory c)
   \<Longrightarrow> length (ctx_turns c') = length (conversationHistory c')"
  by (cases "dlg_mode d")
     (auto simp: run_mode_def executeSequentialDialogue_def executeRoundRobinDialogue_def
        executeDynamicDialogue_def
        dest: sequential_loop_length round_robin_loop_length dynamic_loop_length)

lemma executeDialogue_length:
  assumes "executeDialogue e node w rid = Inr nr"
  shows "length (out_turns (run_output nr)) = length (out_conversationHistory (run_output nr))"
proof -
  from assms obtain d final where
    r: "run_mode e d \<lparr> ctx_turns = [], ctx_participants = init_participants e (dlg_participants d),
                   conversationHistory = [] \<rparr> w (num_or (maxTurns d) (int (length (dlg_turns d)))) = Inr final"
    and o: "out_turns (run_output nr) = ctx_turns final"
           "out_conversationHistory (run_output nr) = conversationHistory final"
    by (auto simp: executeDialogue_def Let_def split: option.splits sum.splits)
  from run_mode_length[OF r] o show ?thesis by simp
qed

lemma sequential_loop_idle:
  "ctx_participants c = [] \<Longrightarrow> sequential_loop e d w ts c = Inr c"
  by (induction ts) (auto simp: executeTurn_def)

lemma round_robin_loop_idle:
  "ctx_participants c = [] \<Longrightarrow> round_robin_loop e d w left i c = Inr c"
  by (induction left arbitrary: i) (auto simp: round_robin_turn_def executeTurn_def Let_def)

lemma dynamic_loop_idle:
  "ctx_participants c = [] \<Longrightarrow> dynamic_loop e d w left c = Inr c"
  by (induction left) (auto simp: dynamic_turn_def executeTurn_def Let_def)

lemma init_participants_none:
  "\<forall>r \<in> set refs. getAgent e r = None \<Longrightarrow> foldl (\<lambda>m participantRef. case getAgent e participantRef of
                                  None \<Rightarrow> m
                                | Some agent \<Rightarrow> map_set participantRef agent m) m0 refs = m0"
  by (induction refs arbitrary: m0) auto

lemma run_mode_idle:
  "ctx_participants c = [] \<Longrightarrow> run_mode e d c w m = Inr c"
  by (cases "dlg_mode d")
     (simp_all add: run_mode_def executeSequentialDialogue_def executeRoundRobinDialogue_def
        executeDynamicDialogue_def sequential_loop_idle round_robin_loop_idle dynamic_loop_idle)

lemma run_mode_no_turns:
  "m \<le> 0 \<Longrightarrow> run_mode e d c w m = Inr c"
  by (cases "dlg_mode d")
     (simp_all add: run_mode_def executeSequentialDialogue_def executeRoundRobinDialogue_def
        executeDynamicDialogue_def)


lemma demo_run_evaluated:
  "executeDialogue demo_env demo_node [(''stop'', JStr ''no'')] ''run-1'' = Inr demo_run"
  by code_simp


























text \<open>
  C9. The list of turns and the conversation history grow together. A turn whose
  speaker is not among the resolved participants changes nothing; a turn that is
  executed appends exactly one result to \<open>turns\<close> and exactly one line
  \<open>LABEL: response\<close> to the history. Hence the two lists, empty at the start, have the
  same length after every turn, after every loop, and in the output of the node.
\<close>

theorem turns_and_history_grow_together:
  "(map_of (ctx_participants c) (turn_speaker turn) = None \<longrightarrow> executeTurn e turn c w = Inr c)
   \<and> (map_of (ctx_participants c) (turn_speaker turn) \<noteq> None \<and> executeTurn e turn c w = Inr c1
        \<longrightarrow> (\<exists>r. ctx_turns c1 = ctx_turns c @ [r]
                 \<and> conversationHistory c1 = conversationHistory c
                      @ [getSpeakerName (turn_speaker turn) @ '': '' @ tr_response r]))
   \<and> (length (ctx_turns c) = length (conversationHistory c) \<and> executeTurn e turn c w = Inr c1
        \<longrightarrow> length (ctx_turns c1) = length (conversationHistory c1))
   \<and> (length (ctx_turns c) = length (conversationHistory c) \<and> run_mode e d c w m = Inr c2
        \<longrightarrow> length (ctx_turns c2) = length (conversationHistory c2))
   \<and> (executeDialogue e node w rid = Inr nr
        \<longrightarrow> length (out_turns (run_output nr))
            = length (out_conversationHistory (run_output nr)))"
proof -
  have skipped: "map_of (ctx_participants c) (turn_speaker turn) = None
                 \<longrightarrow> executeTurn e turn c w = Inr c"
    by (simp add: executeTurn_unknown_speaker)
  have appended: "map_of (ctx_participants c) (turn_speaker turn) \<noteq> None
        \<and> executeTurn e turn c w = Inr c1
        \<longrightarrow> (\<exists>r. ctx_turns c1 = ctx_turns c @ [r]
                 \<and> conversationHistory c1 = conversationHistory c
                      @ [getSpeakerName (turn_speaker turn) @ '': '' @ tr_response r])"
    using executeTurn_appends[of e turn c w c1] by blast
  have step: "length (ctx_turns c) = length (conversationHistory c)
        \<and> executeTurn e turn c w = Inr c1
        \<longrightarrow> length (ctx_turns c1) = length (conversationHistory c1)"
    using executeTurn_length[of e turn c w c1] by blast
  have loop: "length (ctx_turns c) = length (conversationHistory c)
        \<and> run_mode e d c w m = Inr c2
        \<longrightarrow> length (ctx_turns c2) = length (conversationHistory c2)"
    using run_mode_length[of e d c w m c2] by blast
  have node: "executeDialogue e node w rid = Inr nr
        \<longrightarrow> length (out_turns (run_output nr))
            = length (out_conversationHistory (run_output nr))"
    using executeDialogue_length[of e node w rid nr] by blast
  from skipped appended step loop node show ?thesis by blast
qed

theorem turns_and_history_grow_together_witness:
  "executeTurn demo_env
      \<lparr> turn_speaker = ''cmo-agent-v1'', turn_prompt = ''Marketing view'', respondTo = None \<rparr>
      empty_context [] = Inr empty_context
   \<and> executeDialogue demo_env demo_node [(''stop'', JStr ''no'')] ''run-1'' = Inr demo_run
   \<and> length (out_turns (run_output demo_run)) = 2
   \<and> length (out_conversationHistory (run_output demo_run)) = 2"
proof -
  let ?turn = "\<lparr> turn_speaker = ''cmo-agent-v1'', turn_prompt = ''Marketing view'',
                 respondTo = None \<rparr>"
  have unknown: "map_of (ctx_participants empty_context) (turn_speaker ?turn) = None"
    by (simp add: empty_context_def)
  have skipped: "executeTurn demo_env ?turn empty_context [] = Inr empty_context"
    using turns_and_history_grow_together
            [where c = empty_context and e = demo_env and w = "[]" and turn = ?turn,
             THEN conjunct1]
          unknown
    by blast
  have same: "length (out_turns (run_output demo_run))
              = length (out_conversationHistory (run_output demo_run))"
    using turns_and_history_grow_together
            [where e = demo_env and node = demo_node and w = "[(''stop'', JStr ''no'')]"
               and rid = "''run-1''" and nr = demo_run,
             THEN conjunct2, THEN conjunct2, THEN conjunct2, THEN conjunct2]
          demo_run_evaluated
    by blast
  have two: "length (out_turns (run_output demo_run)) = 2"
    by (simp add: demo_run_def)
  from skipped same two demo_run_evaluated show ?thesis by simp
qed

text \<open>
  C10. Whenever \<open>executeDialogue\<close> returns, the node run it returns is \<open>completed\<close> with
  retry count 0, whatever turns were executed. It does return, with no turn at all,
  when no participant resolves in the registry and when the turn limit is not positive.
\<close>

theorem executeDialogue_completed:
  "(executeDialogue e node w rid = Inr nr \<longrightarrow> status nr = completed \<and> retryCount nr = 0)
   \<and> (wn_dialogue node = Some d \<and> (\<forall>r \<in> set (dlg_participants d). getAgent e r = None)
        \<longrightarrow> (\<exists>nr'. executeDialogue e node w rid = Inr nr' \<and> status nr' = completed
                    \<and> retryCount nr' = 0 \<and> out_turns (run_output nr') = []))
   \<and> (wn_dialogue node = Some d \<and> num_or (maxTurns d) (int (length (dlg_turns d))) \<le> 0
        \<longrightarrow> (\<exists>nr'. executeDialogue e node w rid = Inr nr' \<and> status nr' = completed
                    \<and> retryCount nr' = 0 \<and> out_turns (run_output nr') = []))"
proof -
  have returned: "executeDialogue e node w rid = Inr nr
                  \<longrightarrow> status nr = completed \<and> retryCount nr = 0"
    by (auto simp: executeDialogue_def Let_def split: option.splits sum.splits)
  have unresolved: "wn_dialogue node = Some d
      \<and> (\<forall>r \<in> set (dlg_participants d). getAgent e r = None)
      \<longrightarrow> (\<exists>nr'. executeDialogue e node w rid = Inr nr' \<and> status nr' = completed
                  \<and> retryCount nr' = 0 \<and> out_turns (run_output nr') = [])"
  proof
    assume a: "wn_dialogue node = Some d
               \<and> (\<forall>r \<in> set (dlg_participants d). getAgent e r = None)"
    then have "init_participants e (dlg_participants d) = []"
      unfolding init_participants_def by (intro init_participants_none) simp
    with a show "\<exists>nr'. executeDialogue e node w rid = Inr nr' \<and> status nr' = completed
                    \<and> retryCount nr' = 0 \<and> out_turns (run_output nr') = []"
      by (simp add: executeDialogue_def Let_def run_mode_idle)
  qed
  have no_turns: "wn_dialogue node = Some d
      \<and> num_or (maxTurns d) (int (length (dlg_turns d))) \<le> 0
      \<longrightarrow> (\<exists>nr'. executeDialogue e node w rid = Inr nr' \<and> status nr' = completed
                  \<and> retryCount nr' = 0 \<and> out_turns (run_output nr') = [])"
    by (simp add: executeDialogue_def Let_def run_mode_no_turns)
  from returned unresolved no_turns show ?thesis by blast
qed

theorem executeDialogue_completed_witness:
  "executeDialogue demo_env demo_node [(''stop'', JStr ''no'')] ''run-1'' = Inr demo_run
   \<and> status demo_run = completed \<and> retryCount demo_run = 0
   \<and> (\<exists>nr'. executeDialogue demo_env
               (demo_node \<lparr> wn_dialogue :=
                   Some (demo_dialogue \<lparr> dlg_participants := [''cmo-agent-v1''] \<rparr>) \<rparr>)
               [] ''run-2'' = Inr nr'
            \<and> status nr' = completed \<and> retryCount nr' = 0 \<and> out_turns (run_output nr') = [])"
  using executeDialogue_completed
          [where e = demo_env and node = demo_node and w = "[(''stop'', JStr ''no'')]"
             and rid = "''run-1''" and nr = demo_run]
        executeDialogue_completed
          [where e = demo_env
             and node = "demo_node \<lparr> wn_dialogue :=
                   Some (demo_dialogue \<lparr> dlg_participants := [''cmo-agent-v1''] \<rparr>) \<rparr>"
             and d = "demo_dialogue \<lparr> dlg_participants := [''cmo-agent-v1''] \<rparr>"
             and w = "[]" and rid = "''run-2''"]
        demo_run_evaluated
  by (simp add: demo_env_def demo_node_def)


end
